theory Spec2Isabelle
  imports Main "HOL-Library.AList"
begin

section \<open>The crossword constraint solver of \<^verbatim>\<open>crossword/generate.py\<close>\<close>

subsection \<open>Data model\<close>

text \<open>
  Modelled from the spec: the classes \<^verbatim>\<open>Variable\<close> and \<^verbatim>\<open>Crossword\<close> live in
  \<^verbatim>\<open>crossword.py\<close>, which is not among the sources. A variable is a word slot with a
  starting row, a starting column, a direction and a length; two variables are equal iff
  the four attributes agree.
\<close>

datatype direction = ACROSS | DOWN

datatype variable = Variable (v_i: nat) (v_j: nat) (v_direction: direction) (v_length: nat)

text \<open>
  Modelled from the spec: the puzzle. \<open>variables\<close> and \<open>words\<close> are Python sets; a list
  without repetitions stands for a set together with the order in which Python iterates
  over it. \<open>overlaps\<close> is the dictionary from pairs of variables to either \<^verbatim>\<open>None\<close>
  (\<open>Some None\<close>: no shared cell) or a pair of character indices (\<open>Some (Some (k1, k2))\<close>);
  a pair that is no key of the dictionary is \<open>None\<close>. The indices are positions in a
  list of cells, so they are natural numbers. The method \<^verbatim>\<open>neighbors\<close> is a
  parameter: the solver only iterates over the set it returns.
\<close>

record crossword =
  variables :: "variable list"
  words :: "string list"
  overlaps :: "variable \<times> variable \<rightharpoonup> (nat \<times> nat) option"
  neighbors :: "variable \<Rightarrow> variable list"

text \<open>
  \<^verbatim>\<open>self.domains\<close> is a dictionary from variables to sets of words, \<^verbatim>\<open>assignment\<close> a
  dictionary from variables to words. Both are association lists in insertion order, which
  is the order Python iterates a dictionary in. The object \<^verbatim>\<open>self\<close> has the two
  attributes \<^verbatim>\<open>crossword\<close> and \<^verbatim>\<open>domains\<close>.
\<close>

type_synonym domains = "(variable \<times> string list) list"

type_synonym assignment = "(variable \<times> string) list"

record creator =
  crossword :: crossword
  domains :: domains

text \<open>
  The exceptions the solver's own statements can raise. \<open>Dangling\<close> is no Python exception:
  it is the result of the model on a reference that points to no object of the store,
  which no Python program can hold.
\<close>

datatype error = KeyError | TypeError | IndexError | UnboundLocalError | Dangling

definition bind_err :: "error + 'a \<Rightarrow> ('a \<Rightarrow> error + 'b) \<Rightarrow> error + 'b" where
  "bind_err m f = (case m of Inl e \<Rightarrow> Inl e | Inr x \<Rightarrow> f x)"

text \<open>\<^verbatim>\<open>d[k]\<close> on a dictionary: \<^verbatim>\<open>KeyError\<close> for a missing key.\<close>

definition getitem :: "('k \<times> 'v) list \<Rightarrow> 'k \<Rightarrow> error + 'v" where
  "getitem d k = (case map_of d k of None \<Rightarrow> Inl KeyError | Some v \<Rightarrow> Inr v)"

text \<open>\<^verbatim>\<open>self.crossword.overlaps[x, y]\<close>.\<close>

definition overlaps_at :: "crossword \<Rightarrow> variable \<Rightarrow> variable \<Rightarrow> error + (nat \<times> nat) option" where
  "overlaps_at cw x y = (case overlaps cw (x, y) of None \<Rightarrow> Inl KeyError | Some e \<Rightarrow> Inr e)"

text \<open>\<^verbatim>\<open>a, b = e\<close>: unpacking \<^verbatim>\<open>None\<close> raises \<^verbatim>\<open>TypeError\<close>.\<close>

definition unpack :: "(nat \<times> nat) option \<Rightarrow> error + nat \<times> nat" where
  "unpack e = (case e of None \<Rightarrow> Inl TypeError | Some p \<Rightarrow> Inr p)"

text \<open>\<^verbatim>\<open>w[k]\<close> on a string with a non-negative index: \<^verbatim>\<open>IndexError\<close> out of range.\<close>

definition char_at :: "string \<Rightarrow> nat \<Rightarrow> error + char" where
  "char_at w k = (if k < length w then Inr (w ! k) else Inl IndexError)"

text \<open>\<^verbatim>\<open>s.remove(w)\<close> on a set: \<^verbatim>\<open>KeyError\<close> when \<open>w\<close> is no member; the other
  elements keep their iteration order.\<close>

definition set_remove :: "string list \<Rightarrow> string \<Rightarrow> error + string list" where
  "set_remove s w = (if w \<in> set s then Inr (remove1 w s) else Inl KeyError)"

subsection \<open>\<^verbatim>\<open>__init__\<close>\<close>

text \<open>Every variable gets its own copy of the word set: no two domains are aliased.\<close>

definition creator_init :: "crossword \<Rightarrow> creator" where
  "creator_init cw = \<lparr>crossword = cw, domains = map (\<lambda>var. (var, words cw)) (variables cw)\<rparr>"

subsection \<open>\<^verbatim>\<open>enforce_node_consistency\<close>\<close>

text \<open>
  The inner loop runs over the words of the deep copy and removes from the live set;
  the outer loop runs over the keys of \<^verbatim>\<open>self.domains\<close>, whose key set does not change.
\<close>

fun remove_wrong_length :: "variable \<Rightarrow> string list \<Rightarrow> domains \<Rightarrow> error + domains" where
  "remove_wrong_length var [] d = Inr d"
| "remove_wrong_length var (w # rest) d =
     (if length w \<noteq> v_length var
      then bind_err (getitem d var) (\<lambda>s.
           bind_err (set_remove s w) (\<lambda>s'.
             remove_wrong_length var rest (AList.update var s' d)))
      else remove_wrong_length var rest d)"

fun enforce_loop :: "variable list \<Rightarrow> domains \<Rightarrow> domains \<Rightarrow> error + domains" where
  "enforce_loop [] deepcopy_domain d = Inr d"
| "enforce_loop (var # rest) deepcopy_domain d =
     bind_err (getitem deepcopy_domain var) (\<lambda>ws.
     bind_err (remove_wrong_length var ws d) (\<lambda>d'.
       enforce_loop rest deepcopy_domain d'))"

definition enforce_node_consistency :: "creator \<Rightarrow> error + creator" where
  "enforce_node_consistency self =
     (let deepcopy_domain = domains self in
      bind_err (enforce_loop (map fst (domains self)) deepcopy_domain (domains self)) (\<lambda>d.
        Inr (self\<lparr>domains := d\<rparr>)))"

subsection \<open>\<^verbatim>\<open>revise\<close>\<close>

text \<open>The inner loop over \<^verbatim>\<open>self.domains[y]\<close>: the value of \<^verbatim>\<open>match\<close> at its end.\<close>

fun find_match :: "string \<Rightarrow> nat \<Rightarrow> nat \<Rightarrow> string list \<Rightarrow> error + bool" where
  "find_match word_x overlap_x overlap_y [] = Inr False"
| "find_match word_x overlap_x overlap_y (word_y # rest) =
     bind_err (char_at word_x overlap_x) (\<lambda>cx.
     bind_err (char_at word_y overlap_y) (\<lambda>cy.
       if cx = cy then Inr True else find_match word_x overlap_x overlap_y rest))"

text \<open>The outer loop over the words of the copy; the state is \<^verbatim>\<open>revision\<close> and the
  live domains.\<close>

fun revise_loop ::
  "variable \<Rightarrow> variable \<Rightarrow> nat \<Rightarrow> nat \<Rightarrow> string list \<Rightarrow> bool \<Rightarrow> domains \<Rightarrow> error + bool \<times> domains"
where
  "revise_loop x y overlap_x overlap_y [] revision d = Inr (revision, d)"
| "revise_loop x y overlap_x overlap_y (word_x # rest) revision d =
     bind_err (getitem d y) (\<lambda>dy.
     bind_err (find_match word_x overlap_x overlap_y dy) (\<lambda>match.
       if match then revise_loop x y overlap_x overlap_y rest revision d
       else bind_err (getitem d x) (\<lambda>dx.
            bind_err (set_remove dx word_x) (\<lambda>dx'.
              revise_loop x y overlap_x overlap_y rest True (AList.update x dx' d)))))"

text \<open>\<^verbatim>\<open>if overlap_x:\<close> tests the truth value of an integer, that is \<open>overlap_x \<noteq> 0\<close>.\<close>

definition revise :: "creator \<Rightarrow> variable \<Rightarrow> variable \<Rightarrow> error + bool \<times> creator" where
  "revise self x y =
     bind_err (overlaps_at (crossword self) x y) (\<lambda>e.
     bind_err (unpack e) (\<lambda>(overlap_x, overlap_y).
       let copy_domain = domains self in
       if overlap_x \<noteq> 0
       then bind_err (getitem copy_domain x) (\<lambda>cx.
            bind_err (revise_loop x y overlap_x overlap_y cx False (domains self)) (\<lambda>(revision, d).
              Inr (revision, self\<lparr>domains := d\<rparr>)))
       else Inr (False, self)))"

subsection \<open>\<^verbatim>\<open>ac3\<close>\<close>

type_synonym arc = "variable \<times> variable"

fun append_arcs :: "crossword \<Rightarrow> variable \<Rightarrow> variable list \<Rightarrow> arc list \<Rightarrow> error + arc list" where
  "append_arcs cw var1 [] queue = Inr queue"
| "append_arcs cw var1 (var2 # rest) queue =
     bind_err (overlaps_at cw var1 var2) (\<lambda>e.
       append_arcs cw var1 rest (if e \<noteq> None then queue @ [(var1, var2)] else queue))"

fun initial_queue :: "crossword \<Rightarrow> variable list \<Rightarrow> arc list \<Rightarrow> error + arc list" where
  "initial_queue cw [] queue = Inr queue"
| "initial_queue cw (var1 # rest) queue =
     bind_err (append_arcs cw var1 (neighbors cw var1) queue) (\<lambda>queue'.
       initial_queue cw rest queue')"

text \<open>
  The \<^verbatim>\<open>while\<close> loop. Its body ends in an unconditional \<^verbatim>\<open>return True\<close> (the statement is
  indented into the loop), so no second iteration is ever started and the loop is not a
  recursion: on an empty queue the function falls off its end and returns \<^verbatim>\<open>None\<close>,
  otherwise the first iteration returns. The result is \<open>None\<close> for \<^verbatim>\<open>None\<close> and
  \<open>Some b\<close> for the Boolean \<open>b\<close>; the queue as it is at the return is kept beside it.
\<close>

definition ac3_while :: "creator \<Rightarrow> arc list \<Rightarrow> error + bool option \<times> arc list \<times> creator" where
  "ac3_while self queue =
     (case queue of
        [] \<Rightarrow> Inr (None, queue, self)
      | (x, y) # queue' \<Rightarrow>
          bind_err (revise self x y) (\<lambda>(revised, self').
            if revised
            then bind_err (getitem (domains self') x) (\<lambda>dx.
                   if length dx = 0 then Inr (Some False, queue', self')
                   else Inr (Some True,
                             queue' @ map (\<lambda>neighbour. (neighbour, x))
                                        (filter (\<lambda>neighbour. neighbour \<noteq> y)
                                           (neighbors (crossword self') x)),
                             self'))
            else Inr (Some True, queue', self')))"

text \<open>
  \<^verbatim>\<open>if not arcs:\<close> holds for \<^verbatim>\<open>None\<close> and for the empty list. There is no \<^verbatim>\<open>else\<close>
  branch: with a non-empty \<^verbatim>\<open>arcs\<close> the local \<^verbatim>\<open>queue\<close> is unbound when the loop
  condition reads it.
\<close>

definition ac3_queue :: "creator \<Rightarrow> arc list option \<Rightarrow> error + bool option \<times> arc list \<times> creator" where
  "ac3_queue self arcs =
     (if arcs = None \<or> arcs = Some []
      then bind_err (initial_queue (crossword self) (map fst (domains self)) []) (\<lambda>queue.
             ac3_while self queue)
      else Inl UnboundLocalError)"

definition ac3 :: "creator \<Rightarrow> arc list option \<Rightarrow> error + bool option \<times> creator" where
  "ac3 self arcs = bind_err (ac3_queue self arcs) (\<lambda>(result, queue, self'). Inr (result, self'))"

subsection \<open>\<^verbatim>\<open>assignment_complete\<close> and \<^verbatim>\<open>consistent\<close>\<close>

text \<open>\<^verbatim>\<open>var in assignment\<close> is membership among the keys.\<close>

definition has_key :: "('k \<times> 'v) list \<Rightarrow> 'k \<Rightarrow> bool" where
  "has_key d k = (k \<in> set (map fst d))"

fun assignment_complete_loop :: "variable list \<Rightarrow> assignment \<Rightarrow> bool" where
  "assignment_complete_loop [] assignment = True"
| "assignment_complete_loop (var # rest) assignment =
     (if \<not> has_key assignment var then False else assignment_complete_loop rest assignment)"

definition assignment_complete :: "creator \<Rightarrow> assignment \<Rightarrow> bool" where
  "assignment_complete self assignment =
     assignment_complete_loop (map fst (domains self)) assignment"

text \<open>The second loop of \<^verbatim>\<open>consistent\<close>: \<open>Inr False\<close> is the early \<^verbatim>\<open>return False\<close>,
  \<open>Inr True\<close> is the loop running to its end.\<close>

fun lengths_loop :: "assignment \<Rightarrow> variable list \<Rightarrow> error + bool" where
  "lengths_loop assignment [] = Inr True"
| "lengths_loop assignment (var # rest) =
     bind_err (getitem assignment var) (\<lambda>w.
       if v_length var \<noteq> length w then Inr False else lengths_loop assignment rest)"

text \<open>The third loop, inner part: the neighbours \<open>n\<close> of one variable.\<close>

fun neighbors_loop :: "crossword \<Rightarrow> assignment \<Rightarrow> variable \<Rightarrow> variable list \<Rightarrow> error + bool" where
  "neighbors_loop cw assignment var [] = Inr True"
| "neighbors_loop cw assignment var (n # rest) =
     (if has_key assignment n
      then bind_err (overlaps_at cw var n) (\<lambda>e.
           bind_err (unpack e) (\<lambda>(x, y).
           bind_err (getitem assignment var) (\<lambda>wv.
           bind_err (char_at wv x) (\<lambda>cv.
           bind_err (getitem assignment n) (\<lambda>wn.
           bind_err (char_at wn y) (\<lambda>cn.
             if cv \<noteq> cn then Inr False else neighbors_loop cw assignment var rest))))))
      else neighbors_loop cw assignment var rest)"

fun overlaps_loop :: "crossword \<Rightarrow> assignment \<Rightarrow> variable list \<Rightarrow> error + bool" where
  "overlaps_loop cw assignment [] = Inr True"
| "overlaps_loop cw assignment (var # rest) =
     bind_err (neighbors_loop cw assignment var (neighbors cw var)) (\<lambda>ok.
       if ok then overlaps_loop cw assignment rest else Inr False)"

definition consistent :: "creator \<Rightarrow> assignment \<Rightarrow> error + bool" where
  "consistent self assignment =
     (let word = map snd assignment in
      if length word \<noteq> card (set word) then Inr False
      else bind_err (lengths_loop assignment (map fst assignment)) (\<lambda>ok.
             if \<not> ok then Inr False
             else overlaps_loop (crossword self) assignment (map fst assignment)))"

subsection \<open>\<^verbatim>\<open>order_domain_values\<close>\<close>

text \<open>The loop variable \<^verbatim>\<open>words\<close> of the source is \<open>word\<close> here.\<close>

fun count_mismatch :: "string \<Rightarrow> nat \<Rightarrow> nat \<Rightarrow> string list \<Rightarrow> nat \<Rightarrow> error + nat" where
  "count_mismatch word overlap_x overlap_y [] removed = Inr removed"
| "count_mismatch word overlap_x overlap_y (n_word # rest) removed =
     bind_err (char_at word overlap_x) (\<lambda>c.
     bind_err (char_at n_word overlap_y) (\<lambda>c'.
       count_mismatch word overlap_x overlap_y rest (if c \<noteq> c' then removed + 1 else removed)))"

fun count_removed ::
  "creator \<Rightarrow> assignment \<Rightarrow> variable \<Rightarrow> string \<Rightarrow> variable list \<Rightarrow> nat \<Rightarrow> error + nat"
where
  "count_removed self assignment var word [] removed = Inr removed"
| "count_removed self assignment var word (n # rest) removed =
     (if has_key assignment n then count_removed self assignment var word rest removed
      else bind_err (overlaps_at (crossword self) var n) (\<lambda>e.
           bind_err (unpack e) (\<lambda>(overlap_x, overlap_y).
           bind_err (getitem (domains self) n) (\<lambda>dn.
           bind_err (count_mismatch word overlap_x overlap_y dn removed) (\<lambda>removed'.
             count_removed self assignment var word rest removed')))))"

text \<open>
  The \<^verbatim>\<open>return\<close> is indented into the loop over \<^verbatim>\<open>self.domains[var]\<close>: the first
  iteration returns, and on an empty domain the function falls off its end and returns
  \<^verbatim>\<open>None\<close>. \<^verbatim>\<open>sorted\<close> is stable, as \<open>sort_key\<close> is.
\<close>

definition order_domain_values ::
  "creator \<Rightarrow> variable \<Rightarrow> assignment \<Rightarrow> error + string list option"
where
  "order_domain_values self var assignment =
     (let DictWord = ([] :: (string \<times> nat) list);
          neighbours = neighbors (crossword self) var
      in bind_err (getitem (domains self) var) (\<lambda>dv.
           case dv of
             [] \<Rightarrow> Inr None
           | word # _ \<Rightarrow>
               bind_err (count_removed self assignment var word neighbours 0) (\<lambda>removed.
                 let DictWord = AList.update word removed DictWord;
                     sorted_l = sort_key snd DictWord
                 in Inr (Some (map fst sorted_l)))))"

subsection \<open>\<^verbatim>\<open>select_unassigned_variable\<close>\<close>

text \<open>
  \<^verbatim>\<open>unassign_var\<close> holds the items of \<^verbatim>\<open>self.domains\<close> whose key is not assigned, in
  the order of \<^verbatim>\<open>self.domains\<close>; \<^verbatim>\<open>sorted_l[0]\<close> raises \<^verbatim>\<open>IndexError\<close> on the empty list.
\<close>

definition select_unassigned_variable :: "creator \<Rightarrow> assignment \<Rightarrow> error + variable" where
  "select_unassigned_variable self assignment =
     (let unassign_var = filter (\<lambda>(var, ws). \<not> has_key assignment var) (domains self);
          sorted_l = map fst (sort_key (\<lambda>item. length (snd item)) unassign_var)
      in case sorted_l of [] \<Rightarrow> Inl IndexError | var # _ \<Rightarrow> Inr var)"

subsection \<open>\<^verbatim>\<open>backtrack\<close> and \<^verbatim>\<open>solve\<close>\<close>

text \<open>
  Assignments are dictionary objects that \<^verbatim>\<open>backtrack\<close> receives and returns by
  reference, copies with \<^verbatim>\<open>assignment.copy()\<close> and writes with
  \<^verbatim>\<open>copy_assign[var] = value\<close>. The store is the list of all dictionary objects
  allocated so far and a reference is an index into it; \<^verbatim>\<open>copy()\<close> appends a new object,
  an item assignment overwrites the object at its index. \<^verbatim>\<open>self\<close> is passed through
  every call and returned. The loop over \<^verbatim>\<open>self.domains[var]\<close> is \<open>try_values\<close>.
\<close>

type_synonym store = "assignment list"

function backtrack :: "creator \<Rightarrow> store \<Rightarrow> nat \<Rightarrow> error + nat option \<times> creator \<times> store"
  and try_values ::
    "creator \<Rightarrow> store \<Rightarrow> nat \<Rightarrow> variable \<Rightarrow> string list \<Rightarrow> error + nat option \<times> creator \<times> store"
where
  "backtrack self h assignment =
     (if \<not> assignment < length h then Inl Dangling
      else if length (h ! assignment) = length (domains self) then Inr (Some assignment, self, h)
      else case select_unassigned_variable self (h ! assignment) of
             Inl e \<Rightarrow> Inl e
           | Inr var \<Rightarrow>
               (case getitem (domains self) var of
                  Inl e \<Rightarrow> Inl e
                | Inr vals \<Rightarrow> try_values self h assignment var vals))"
| "try_values self h assignment var [] = Inr (None, self, h)"
| "try_values self h assignment var (val # rest) =
     (if \<not> assignment < length h then Inl Dangling
      else
        let copy_assign = length h;
            h1 = h @ [h ! assignment];
            h2 = h1[copy_assign := AList.update var val (h1 ! copy_assign)]
        in case consistent self (h2 ! copy_assign) of
             Inl e \<Rightarrow> Inl e
           | Inr ok \<Rightarrow>
               if ok
               then (case backtrack self h2 copy_assign of
                       Inl e \<Rightarrow> Inl e
                     | Inr (result, self', h') \<Rightarrow>
                         if result \<noteq> None then Inr (result, self', h')
                         else try_values self' h' assignment var rest)
               else try_values self h2 assignment var rest)"
  by pat_completeness auto

text \<open>\<^verbatim>\<open>solve\<close> discards what \<^verbatim>\<open>ac3\<close> returns; \<^verbatim>\<open>dict()\<close> allocates a new empty object.\<close>

definition solve :: "creator \<Rightarrow> store \<Rightarrow> error + nat option \<times> creator \<times> store" where
  "solve self h =
     bind_err (enforce_node_consistency self) (\<lambda>self1.
     bind_err (ac3 self1 None) (\<lambda>(_, self2).
       backtrack self2 (h @ [[]]) (length h)))"

text \<open>A store extends another one when it keeps every object of it unchanged.\<close>

definition store_extends :: "store \<Rightarrow> store \<Rightarrow> bool" where
  "store_extends h h' \<longleftrightarrow> length h \<le> length h' \<and> (\<forall>b < length h. h' ! b = h ! b)"

text \<open>The number of keys of \<^verbatim>\<open>self.domains\<close> outside a set of variables: the measure of
  the search.\<close>

definition unassigned :: "creator \<Rightarrow> variable set \<Rightarrow> nat" where
  "unassigned self ks = length (filter (\<lambda>v. v \<notin> ks) (map fst (domains self)))"

text \<open>
  The invariant of the dictionaries the search builds: no key twice, and every item
  pairs a key of \<^verbatim>\<open>self.domains\<close> with a word of its domain.
\<close>

definition drawn_from :: "creator \<Rightarrow> assignment \<Rightarrow> bool" where
  "drawn_from self asg \<longleftrightarrow>
     distinct (map fst asg)
     \<and> (\<forall>(v, w) \<in> set asg. \<exists>ws. map_of (domains self) v = Some ws \<and> w \<in> set ws)"

text \<open>
  The property the spec calls a consistent complete assignment of a puzzle: every
  variable has exactly one word, the words are pairwise distinct, every word has the
  length of its variable, and neighbouring variables agree on the characters at their
  overlap indices.
\<close>

definition complete_consistent :: "crossword \<Rightarrow> assignment \<Rightarrow> bool" where
  "complete_consistent cw asg \<longleftrightarrow>
     distinct (map fst asg) \<and> set (map fst asg) = set (variables cw)
   \<and> distinct (map snd asg)
   \<and> (\<forall>(v, w) \<in> set asg. length w = v_length v)
   \<and> (\<forall>(v, w) \<in> set asg. \<forall>(n, w') \<in> set asg. n \<in> set (neighbors cw v) \<longrightarrow>
         (\<exists>x y. overlaps cw (v, n) = Some (Some (x, y))
             \<and> x < length w \<and> y < length w' \<and> w ! x = w' ! y))"

text \<open>
  Modelled from the spec: what the loader in \<^verbatim>\<open>crossword.py\<close> guarantees of a puzzle.
  Variables and words are sets; the neighbours of a variable are variables of the puzzle,
  and the overlap table gives for a variable and each of its neighbours a pair of
  character indices that lie inside the two slots.
\<close>

definition wf_crossword :: "crossword \<Rightarrow> bool" where
  "wf_crossword cw \<longleftrightarrow>
     distinct (variables cw) \<and> distinct (words cw)
     \<and> (\<forall>v \<in> set (variables cw). \<forall>n \<in> set (neighbors cw v).
           n \<in> set (variables cw)
           \<and> (\<exists>x y. overlaps cw (v, n) = Some (Some (x, y)) \<and> x < v_length v \<and> y < v_length n))"

text \<open>The invariant of the domains after node consistency: every domain is a set of
  words of the word list that have the length of the variable.\<close>

definition candidates_ok :: "crossword \<Rightarrow> variable \<Rightarrow> string list \<Rightarrow> bool" where
  "candidates_ok cw v ws \<longleftrightarrow>
     distinct ws \<and> set ws \<subseteq> set (words cw) \<and> (\<forall>w \<in> set ws. length w = v_length v)"

definition solver_ok :: "creator \<Rightarrow> bool" where
  "solver_ok self \<longleftrightarrow>
     wf_crossword (crossword self)
     \<and> map fst (domains self) = variables (crossword self)
     \<and> (\<forall>(v, ws) \<in> set (domains self). candidates_ok (crossword self) v ws)"

subsection \<open>Example puzzles\<close>

text \<open>
  A full 2 by 2 grid: two rows read across, two columns read down. Each across slot
  shares one cell with each down slot; the overlap table is the one the loader computes
  from the cells.
\<close>

definition a0 :: variable where "a0 = Variable 0 0 ACROSS 2"
definition a1 :: variable where "a1 = Variable 1 0 ACROSS 2"
definition d0 :: variable where "d0 = Variable 0 0 DOWN 2"
definition d1 :: variable where "d1 = Variable 0 1 DOWN 2"

definition grid2 :: crossword where
  "grid2 = \<lparr>variables = [a0, d0, d1, a1],
            words = [''AB'', ''BA'', ''CD'', ''CAT''],
            overlaps = map_of
              [((a0, d0), Some (0, 0)), ((d0, a0), Some (0, 0)),
               ((a0, d1), Some (1, 0)), ((d1, a0), Some (0, 1)),
               ((a1, d0), Some (0, 1)), ((d0, a1), Some (1, 0)),
               ((a1, d1), Some (1, 1)), ((d1, a1), Some (1, 1)),
               ((a0, a1), None), ((a1, a0), None),
               ((d0, d1), None), ((d1, d0), None)],
            neighbors = (\<lambda>v. if v = a0 \<or> v = a1 then [d1, d0]
                              else if v = d0 \<or> v = d1 then [a0, a1] else [])\<rparr>"

text \<open>The 2 by 2 grid after node consistency, and a state of it in which the word of
  the first row has no support in the first column.\<close>

definition grid2_node :: creator where
  "grid2_node = \<lparr>crossword = grid2,
     domains = [(a0, [''AB'', ''BA'', ''CD'']), (d0, [''AB'', ''BA'', ''CD'']),
                (d1, [''AB'', ''BA'', ''CD'']), (a1, [''AB'', ''BA'', ''CD''])]\<rparr>"

definition grid2_zero :: creator where
  "grid2_zero = \<lparr>crossword = grid2,
     domains = [(a0, [''AB'']), (d0, [''CD'', ''BA'']),
                (d1, [''AB'', ''BA'', ''CD'']), (a1, [''AB'', ''BA'', ''CD''])]\<rparr>"

text \<open>Two slots of length 3 that cross: the second letter of the across word is the
  first letter of the down word.\<close>

definition ac :: variable where "ac = Variable 0 0 ACROSS 3"
definition dn :: variable where "dn = Variable 0 1 DOWN 3"

definition cross :: "string list \<Rightarrow> crossword" where
  "cross ws = \<lparr>variables = [ac, dn],
               words = ws,
               overlaps = map_of [((ac, dn), Some (1, 0)), ((dn, ac), Some (0, 1))],
               neighbors = (\<lambda>v. if v = ac then [dn] else if v = dn then [ac] else [])\<rparr>"

text \<open>The state of the crossing puzzle with the words \<open>CAT\<close>, \<open>ARE\<close>, \<open>DOG\<close> when the
  search starts, and the store when it ends.\<close>

definition cross3 :: creator where
  "cross3 = \<lparr>crossword = cross [''CAT'', ''ARE'', ''DOG''],
     domains = [(ac, [''CAT'']), (dn, [''CAT'', ''ARE'', ''DOG''])]\<rparr>"

definition store3 :: store where
  "store3 = [[], [(ac, ''CAT'')], [(ac, ''CAT''), (dn, ''CAT'')], [(ac, ''CAT''), (dn, ''ARE'')]]"

text \<open>One slot of length 3 and no other.\<close>

definition single :: "string list \<Rightarrow> crossword" where
  "single ws = \<lparr>variables = [ac], words = ws, overlaps = Map.empty, neighbors = (\<lambda>v. [])\<rparr>"

section \<open>Properties\<close>

subsection \<open>Basic facts\<close>

lemma bind_err_Inl [simp]: "bind_err (Inl e) f = Inl e"
  by (simp add: bind_err_def)

lemma bind_err_Inr [simp]: "bind_err (Inr x) f = f x"
  by (simp add: bind_err_def)

lemma bind_err_eq_Inr: "bind_err m f = Inr y \<longleftrightarrow> (\<exists>x. m = Inr x \<and> f x = Inr y)"
  by (cases m) simp_all

lemma getitem_Some: "map_of d k = Some v \<Longrightarrow> getitem d k = Inr v"
  by (simp add: getitem_def)

lemma update_append_notin:
  "k \<notin> fst ` set xs \<Longrightarrow> AList.update k v (xs @ ys) = xs @ AList.update k v ys"
  by (induction xs) auto

lemma map_of_append_notin:
  "k \<notin> fst ` set xs \<Longrightarrow> map_of (xs @ ys) k = map_of ys k"
  by (induction xs) auto

lemmas ex_defs = grid2_def a0_def a1_def d0_def d1_def grid2_node_def grid2_zero_def
  cross_def single_def ac_def dn_def creator_init_def cross3_def store3_def

lemmas py_defs = getitem_def overlaps_at_def unpack_def char_at_def set_remove_def has_key_def

subsection \<open>Node consistency\<close>

abbreviation (input) right_length :: "variable \<times> string list \<Rightarrow> variable \<times> string list" where
  "right_length \<equiv> (\<lambda>(v, ws). (v, filter (\<lambda>w. length w = v_length v) ws))"

text \<open>The inner loop, started when the words before \<open>ws\<close> in the live set all have the
  right length, leaves exactly the words of the right length.\<close>

lemma remove_wrong_length_filter:
  "map_of d var = Some (pre @ ws) \<Longrightarrow> \<forall>w \<in> set pre. length w = v_length var \<Longrightarrow>
   remove_wrong_length var ws d
     = Inr (AList.update var (pre @ filter (\<lambda>w. length w = v_length var) ws) d)"
proof (induction ws arbitrary: pre d)
  case Nil
  then show ?case by (simp add: update_triv)
next
  case (Cons w rest)
  show ?case
  proof (cases "length w = v_length var")
    case True
    have "remove_wrong_length var rest d
      = Inr (AList.update var ((pre @ [w]) @ filter (\<lambda>w. length w = v_length var) rest) d)"
      using Cons.prems True by (intro Cons.IH) auto
    with True show ?thesis by simp
  next
    case False
    then have notin: "w \<notin> set pre" using Cons.prems(2) by auto
    let ?d' = "AList.update var (pre @ rest) d"
    have m: "map_of ?d' var = Some (pre @ rest)" by (simp add: update_conv')
    have step: "remove_wrong_length var rest ?d'
      = Inr (AList.update var (pre @ filter (\<lambda>w. length w = v_length var) rest) ?d')"
      using m Cons.prems(2) by (rule Cons.IH)
    have rm: "set_remove (pre @ w # rest) w = Inr (pre @ rest)"
      using notin by (simp add: set_remove_def remove1_append)
    show ?thesis
      using False step rm Cons.prems(1)
      by (simp add: getitem_Some)
  qed
qed

lemma enforce_loop_filter:
  "distinct (map fst (pre @ todo)) \<Longrightarrow>
   enforce_loop (map fst todo) (pre @ todo) (map right_length pre @ todo)
     = Inr (map right_length (pre @ todo))"
proof (induction todo arbitrary: pre)
  case Nil
  then show ?case by simp
next
  case (Cons p todo)
  obtain v ws where p: "p = (v, ws)" by (cases p)
  have v_pre: "v \<notin> fst ` set pre" using Cons.prems p by auto
  have v_pre': "v \<notin> fst ` set (map right_length pre)" using v_pre by (auto simp: image_iff)
  have look: "getitem (pre @ p # todo) v = Inr ws"
    using v_pre p by (simp add: getitem_def map_of_append_notin del: map_of_append)
  have live: "map_of (map right_length pre @ p # todo) v = Some ([] @ ws)"
    using v_pre' p by (simp add: map_of_append_notin del: map_of_append)
  have inner: "remove_wrong_length v ws (map right_length pre @ p # todo)
      = Inr (map right_length (pre @ [p]) @ todo)"
    using remove_wrong_length_filter [OF live] v_pre' p
    by (simp add: update_append_notin)
  have "enforce_loop (map fst todo) ((pre @ [p]) @ todo) (map right_length (pre @ [p]) @ todo)
      = Inr (map right_length ((pre @ [p]) @ todo))"
    using Cons.prems by (intro Cons.IH) simp
  then show ?case using look inner p by simp
qed

lemma enforce_node_consistency_eq:
  "distinct (map fst (domains self)) \<Longrightarrow>
   enforce_node_consistency self = Inr (self\<lparr>domains := map right_length (domains self)\<rparr>)"
  using enforce_loop_filter [of "[]" "domains self"]
  by (simp add: enforce_node_consistency_def)

lemma map_of_right_length:
  "map_of (map right_length d) v
     = map_option (filter (\<lambda>w. length w = v_length v)) (map_of d v)"
  by (induction d) auto

text \<open>
  C5. When \<^verbatim>\<open>self.domains\<close> is a dictionary (no key twice),
  \<^verbatim>\<open>enforce_node_consistency\<close> returns normally, keeps the keys and their order, and
  the new domain of every variable is the old one without the words of another length:
  as a set, exactly the words \<open>w\<close> of the old domain with \<open>length w = v_length v\<close>.
\<close>

theorem enforce_node_consistency_exact:
  assumes "distinct (map fst (domains self))"
  shows "\<exists>d'. enforce_node_consistency self = Inr (self\<lparr>domains := d'\<rparr>)
           \<and> map fst d' = map fst (domains self)
           \<and> (\<forall>v ws. map_of (domains self) v = Some ws \<longrightarrow>
                 (\<exists>ws'. getitem d' v = Inr ws'
                    \<and> ws' = filter (\<lambda>w. length w = v_length v) ws
                    \<and> set ws' = {w \<in> set ws. length w = v_length v}))"
proof (intro exI conjI)
  show "enforce_node_consistency self = Inr (self\<lparr>domains := map right_length (domains self)\<rparr>)"
    using assms by (rule enforce_node_consistency_eq)
  show "map fst (map right_length (domains self)) = map fst (domains self)"
    by (induction "domains self") auto
  show "\<forall>v ws. map_of (domains self) v = Some ws \<longrightarrow>
          (\<exists>ws'. getitem (map right_length (domains self)) v = Inr ws'
             \<and> ws' = filter (\<lambda>w. length w = v_length v) ws
             \<and> set ws' = {w \<in> set ws. length w = v_length v})"
    by (auto simp: getitem_def map_of_right_length)
qed

theorem enforce_node_consistency_exact_witness:
  "distinct (map fst (domains (creator_init grid2)))
   \<and> (\<exists>d'. enforce_node_consistency (creator_init grid2)
               = Inr ((creator_init grid2)\<lparr>domains := d'\<rparr>)
           \<and> map fst d' = map fst (domains (creator_init grid2))
           \<and> (\<forall>v ws. map_of (domains (creator_init grid2)) v = Some ws \<longrightarrow>
                 (\<exists>ws'. getitem d' v = Inr ws'
                    \<and> ws' = filter (\<lambda>w. length w = v_length v) ws
                    \<and> set ws' = {w \<in> set ws. length w = v_length v})))"
proof -
  have h: "distinct (map fst (domains (creator_init grid2)))"
    by (simp add: ex_defs)
  show ?thesis
    using h enforce_node_consistency_exact [OF h] by blast
qed

subsection \<open>\<^verbatim>\<open>revise\<close>\<close>

lemma revise_no_overlap:
  "overlaps (crossword self) (x, y) = Some None \<Longrightarrow> revise self x y = Inl TypeError"
  by (simp add: revise_def overlaps_at_def unpack_def)

lemma revise_overlap_zero:
  "overlaps (crossword self) (x, y) = Some (Some (0, oy)) \<Longrightarrow>
   revise self x y = Inr (False, self)"
  by (simp add: revise_def overlaps_at_def unpack_def)

text \<open>
  C4. On the 2 by 2 grid the first row \<open>a0\<close> and the first column \<open>d0\<close> overlap at
  the indices \<open>(0, 0)\<close>. With \<open>AB\<close> the only candidate of \<open>a0\<close> and \<open>CD\<close>, \<open>BA\<close> the
  candidates of \<open>d0\<close>, no word of \<open>d0\<close> starts with the first letter of \<open>AB\<close>, yet
  \<^verbatim>\<open>revise(a0, d0)\<close> removes nothing and returns \<^verbatim>\<open>False\<close>: the test \<^verbatim>\<open>if overlap_x:\<close>
  is false for the index 0.
\<close>

theorem revise_skips_overlap_index_zero:
  "overlaps grid2 (a0, d0) = Some (Some (0, 0))
   \<and> find_match ''AB'' 0 0 [''CD'', ''BA''] = Inr False
   \<and> revise grid2_zero a0 d0 = Inr (False, grid2_zero)"
  by (simp add: revise_def ex_defs py_defs)

text \<open>
  C6. The two rows \<open>a0\<close> and \<open>a1\<close> of the 2 by 2 grid share no cell: their entry in the
  overlap table is \<^verbatim>\<open>None\<close>. \<^verbatim>\<open>revise(a0, a1)\<close> does not return \<^verbatim>\<open>False\<close>: unpacking the
  entry raises \<^verbatim>\<open>TypeError\<close> before the test of \<^verbatim>\<open>overlap_x\<close> is reached.
\<close>

theorem revise_no_overlap_raises:
  "overlaps grid2 (a0, a1) = Some None \<and> revise (creator_init grid2) a0 a1 = Inl TypeError"
  by (simp add: revise_def ex_defs py_defs)

subsection \<open>\<^verbatim>\<open>ac3\<close>\<close>

text \<open>
  C7. With any non-empty list of arcs supplied, \<^verbatim>\<open>ac3\<close> raises \<^verbatim>\<open>UnboundLocalError\<close>:
  the supplied list is never bound to \<^verbatim>\<open>queue\<close>.
\<close>

theorem ac3_explicit_arcs_unbound: "ac3 self (Some (arc # arcs)) = Inl UnboundLocalError"
  by (simp add: ac3_def ac3_queue_def)

lemma initial_queue_no_neighbors:
  "\<forall>v \<in> set vars. neighbors cw v = [] \<Longrightarrow> initial_queue cw vars queue = Inr queue"
  by (induction vars arbitrary: queue) simp_all

text \<open>
  C10. When no variable of \<^verbatim>\<open>self.domains\<close> has a neighbour, the worklist that \<^verbatim>\<open>ac3()\<close>
  builds is empty, the loop body never runs, and \<^verbatim>\<open>ac3()\<close> returns \<^verbatim>\<open>None\<close>, neither
  \<^verbatim>\<open>True\<close> nor \<^verbatim>\<open>False\<close>, with \<^verbatim>\<open>self\<close> and so every domain unchanged.
\<close>

theorem ac3_empty_worklist_returns_None:
  assumes "\<forall>v \<in> set (map fst (domains self)). neighbors (crossword self) v = []"
  shows "ac3 self None = Inr (None, self)"
  using initial_queue_no_neighbors [OF assms, of "[]"]
  by (simp add: ac3_def ac3_queue_def ac3_while_def)

theorem ac3_empty_worklist_returns_None_witness:
  "map fst (domains (creator_init (single [''CAT'', ''DOG'']))) = [ac]
   \<and> neighbors (crossword (creator_init (single [''CAT'', ''DOG'']))) ac = []
   \<and> ac3 (creator_init (single [''CAT'', ''DOG''])) None
       = Inr (None, creator_init (single [''CAT'', ''DOG'']))"
proof -
  have h: "\<forall>v \<in> set (map fst (domains (creator_init (single [''CAT'', ''DOG''])))).
      neighbors (crossword (creator_init (single [''CAT'', ''DOG'']))) v = []"
    by (simp add: ex_defs)
  show ?thesis
    using ac3_empty_worklist_returns_None [OF h] by (simp add: ex_defs)
qed

text \<open>
  C3. On the node-consistent 2 by 2 grid \<^verbatim>\<open>ac3()\<close> returns \<^verbatim>\<open>True\<close> after the first arc
  \<open>(a0, d1)\<close>: the revision removes \<open>CD\<close> from the domain of \<open>a0\<close> and enqueues
  \<open>(d0, a0)\<close>, and the function returns with eight arcs still in the queue. One of them
  is \<open>(d0, a1)\<close>, which is not arc consistent in the returned state: revising it removes
  \<open>CD\<close> from the domain of \<open>d0\<close>.
\<close>

theorem ac3_returns_after_first_arc:
  "ac3_queue grid2_node None
     = Inr (Some True,
            [(a0, d0), (d0, a0), (d0, a1), (d1, a0), (d1, a1), (a1, d1), (a1, d0), (d0, a0)],
            grid2_node\<lparr>domains := [(a0, [''AB'', ''BA'']), (d0, [''AB'', ''BA'', ''CD'']),
                (d1, [''AB'', ''BA'', ''CD'']), (a1, [''AB'', ''BA'', ''CD''])]\<rparr>)
   \<and> ac3 grid2_node None
     = Inr (Some True,
            grid2_node\<lparr>domains := [(a0, [''AB'', ''BA'']), (d0, [''AB'', ''BA'', ''CD'']),
                (d1, [''AB'', ''BA'', ''CD'']), (a1, [''AB'', ''BA'', ''CD''])]\<rparr>)
   \<and> revise (grid2_node\<lparr>domains := [(a0, [''AB'', ''BA'']), (d0, [''AB'', ''BA'', ''CD'']),
                (d1, [''AB'', ''BA'', ''CD'']), (a1, [''AB'', ''BA'', ''CD''])]\<rparr>) d0 a1
     = Inr (True,
            grid2_node\<lparr>domains := [(a0, [''AB'', ''BA'']), (d0, [''AB'', ''BA'']),
                (d1, [''AB'', ''BA'', ''CD'']), (a1, [''AB'', ''BA'', ''CD''])]\<rparr>)"
  by (simp add: ac3_def ac3_queue_def ac3_while_def revise_def ex_defs py_defs)

subsection \<open>\<^verbatim>\<open>order_domain_values\<close>\<close>

text \<open>
  C9. On the node-consistent 2 by 2 grid the domain of \<open>a0\<close> holds three words, and
  \<^verbatim>\<open>order_domain_values(a0, {})\<close> returns the list of the first one alone.
\<close>

theorem order_domain_values_first_word_only:
  "getitem (domains grid2_node) a0 = Inr [''AB'', ''BA'', ''CD'']
   \<and> order_domain_values grid2_node a0 [] = Inr (Some [''AB''])"
  by (simp add: order_domain_values_def ex_defs py_defs)

subsection \<open>The search terminates\<close>

text \<open>
  The later iterations of the loop in \<open>try_values\<close> run on what the recursive call
  returns, so termination needs to know what a call leaves unchanged: \<^verbatim>\<open>self\<close> and
  every object that was in the store before the call.
\<close>

lemma store_extends_refl: "store_extends h h"
  by (simp add: store_extends_def)

lemma store_extends_trans: "store_extends h h1 \<Longrightarrow> store_extends h1 h2 \<Longrightarrow> store_extends h h2"
  by (auto simp: store_extends_def)

lemma store_extends_alloc:
  "store_extends h ((h @ [x])[length h := y])"
  by (auto simp: store_extends_def nth_append)

lemma backtrack_frame_dom:
  "backtrack_try_values_dom (Inl (self, h, a)) \<Longrightarrow>
     backtrack self h a = Inr (r, self', h') \<Longrightarrow> self' = self \<and> store_extends h h'"
  "backtrack_try_values_dom (Inr (self, h, a, var, vs)) \<Longrightarrow>
     try_values self h a var vs = Inr (r, self', h') \<Longrightarrow> self' = self \<and> store_extends h h'"
proof (induction self h a and self h a var vs arbitrary: r self' h' and r self' h'
       rule: backtrack_try_values.pinduct)
  case (1 self h assignment)
  then show ?case
    by (auto simp: backtrack.psimps store_extends_refl split: if_splits sum.splits)
next
  case (2 self h assignment var)
  then show ?case by (simp add: try_values.psimps store_extends_refl)
next
  case (3 self h assignment var val rest)
  let ?c = "length h"
  let ?h1 = "h @ [h ! assignment]"
  let ?h2 = "?h1[?c := AList.update var val (?h1 ! ?c)]"
  note dom = "3.hyps"
  have ext: "store_extends h ?h2" by (rule store_extends_alloc)
  have valid: "assignment < length h"
    using "3.prems" by (simp add: try_values.psimps(2) [OF dom] split: if_splits)
  have nn: "\<not> \<not> assignment < length h" using valid by simp
  obtain b where cons: "consistent self (?h2 ! ?c) = Inr b"
    using "3.prems" valid
    by (auto simp: try_values.psimps(2) [OF dom] Let_def split: sum.splits)
  show ?case
  proof (cases b)
    case True
    obtain r1 s1 g1 where bt: "backtrack self ?h2 ?c = Inr (r1, s1, g1)"
      using "3.prems" valid cons True
      by (auto simp: try_values.psimps(2) [OF dom] Let_def split: sum.splits)
    have f1: "s1 = self \<and> store_extends ?h2 g1"
      using "3.IH"(1) [OF nn refl refl refl cons True bt] .
    show ?thesis
    proof (cases "r1 \<noteq> None")
      case True
      then have "r = r1 \<and> self' = s1 \<and> h' = g1"
        using "3.prems" valid cons \<open>b\<close> bt
        by (simp add: try_values.psimps(2) [OF dom] Let_def)
      then show ?thesis using f1 ext store_extends_trans by blast
    next
      case False
      then have tv: "try_values s1 g1 assignment var rest = Inr (r, self', h')"
        using "3.prems" valid cons \<open>b\<close> bt
        by (simp add: try_values.psimps(2) [OF dom] Let_def)
      have "self' = s1 \<and> store_extends g1 h'"
        using "3.IH"(2) [OF nn refl refl refl cons \<open>b\<close> bt refl refl False tv] .
      then show ?thesis using f1 ext store_extends_trans by blast
    qed
  next
    case False
    then have tv: "try_values self ?h2 assignment var rest = Inr (r, self', h')"
      using "3.prems" valid cons
      by (simp add: try_values.psimps(2) [OF dom] Let_def)
    have "self' = self \<and> store_extends ?h2 h'"
      using "3.IH"(3) [OF nn refl refl refl cons False tv] .
    then show ?thesis using ext store_extends_trans by blast
  qed
qed


lemma length_filter_insert_less:
  "x \<in> set xs \<Longrightarrow> x \<notin> ks \<Longrightarrow>
   length (filter (\<lambda>v. v \<notin> insert x ks) xs) < length (filter (\<lambda>v. v \<notin> ks) xs)"
proof (induction xs)
  case Nil
  then show ?case by simp
next
  case (Cons y ys)
  have le: "length (filter (\<lambda>v. v \<notin> insert x ks) ys) \<le> length (filter (\<lambda>v. v \<notin> ks) ys)"
    by (induction ys) auto
  show ?case
  proof (cases "y = x")
    case True
    then show ?thesis using Cons.prems le by simp
  next
    case False
    then show ?thesis using Cons by auto
  qed
qed

lemma select_unassigned_variable_Inr:
  "select_unassigned_variable self asg = Inr var \<Longrightarrow>
   var \<in> set (map fst (domains self)) \<and> \<not> has_key asg var"
proof -
  assume sel: "select_unassigned_variable self asg = Inr var"
  let ?u = "filter (\<lambda>(var, ws). \<not> has_key asg var) (domains self)"
  let ?s = "sort_key (\<lambda>item. length (snd item)) ?u"
  from sel obtain rest where "map fst ?s = var # rest"
    by (auto simp: select_unassigned_variable_def Let_def split: list.splits)
  then have "var \<in> set (map fst ?s)" by simp
  then have "var \<in> fst ` set ?u" by simp
  then show ?thesis by auto
qed

lemma keys_update: "fst ` set (AList.update k v al) = insert k (fst ` set al)"
  by (simp add: dom_update)

termination backtrack
proof (relation "measures
    [\<lambda>x. case x of
         Inl (self, h, a) \<Rightarrow> 2 * unassigned self (set (map fst (h ! a)))
       | Inr (self, h, a, var, vs) \<Rightarrow> 2 * unassigned self (insert var (set (map fst (h ! a)))) + 1,
     \<lambda>x. case x of Inl _ \<Rightarrow> 0 | Inr (self, h, a, var, vs) \<Rightarrow> length vs]", goal_cases)
  case 1
  then show ?case by simp
next
  case (2 self h assignment var vals)
  then have "var \<in> set (map fst (domains self))" "var \<notin> set (map fst (h ! assignment))"
    using select_unassigned_variable_Inr [of self "h ! assignment" var]
    by (simp_all add: has_key_def)
  then have "unassigned self (insert var (set (map fst (h ! assignment))))
      < unassigned self (set (map fst (h ! assignment)))"
    unfolding unassigned_def by (rule length_filter_insert_less)
  then show ?case by simp
next
  case (3 self h assignment var val rest x xa xb b)
  then have "xb ! x = AList.update var val (h ! assignment)" by simp
  then show ?case by (simp add: keys_update)
next
  case (4 self h assignment var val rest x xa xb b ba xc y xd ya)
  then have bt: "backtrack self xb x = Inr (xc, xd, ya)" by simp
  have "backtrack_try_values_dom (Inl (self, xb, x))" using "4" by blast
  then have "xd = self \<and> store_extends xb ya"
    using bt by (rule backtrack_frame_dom(1))
  moreover have "assignment < length xb" "xb ! assignment = h ! assignment"
    using "4" by (simp_all add: nth_append)
  ultimately have "xd = self" "ya ! assignment = h ! assignment"
    by (auto simp: store_extends_def)
  then show ?case by simp
next
  case (5 self h assignment var val rest x xa xb b)
  then have "xb ! assignment = h ! assignment" by (simp add: nth_append)
  then show ?case by simp
qed

declare backtrack.simps [simp del] try_values.simps [simp del]

lemmas search_defs = backtrack.simps try_values.simps consistent_def
  select_unassigned_variable_def Let_def List.card_set

subsection \<open>What the search leaves unchanged\<close>

lemma backtrack_frame:
  "backtrack self h a = Inr (r, self', h') \<Longrightarrow> self' = self \<and> store_extends h h'"
  "try_values self h a var vs = Inr (r, self', h') \<Longrightarrow> self' = self \<and> store_extends h h'"
proof (induction self h a and self h a var vs arbitrary: r self' h' and r self' h'
       rule: backtrack_try_values.induct)
  case (1 self h assignment)
  then show ?case
    by (auto simp: backtrack.simps store_extends_refl split: if_splits sum.splits)
next
  case (2 self h assignment var)
  then show ?case by (simp add: try_values.simps store_extends_refl)
next
  case (3 self h assignment var val rest)
  let ?c = "length h"
  let ?h1 = "h @ [h ! assignment]"
  let ?h2 = "?h1[?c := AList.update var val (?h1 ! ?c)]"
  have ext: "store_extends h ?h2" by (rule store_extends_alloc)
  have valid: "assignment < length h"
    using "3.prems" by (simp add: try_values.simps split: if_splits)
  have nn: "\<not> \<not> assignment < length h" using valid by simp
  obtain b where cons: "consistent self (?h2 ! ?c) = Inr b"
    using "3.prems" valid
    by (auto simp: try_values.simps Let_def split: sum.splits)
  show ?case
  proof (cases b)
    case True
    obtain r1 s1 g1 where bt: "backtrack self ?h2 ?c = Inr (r1, s1, g1)"
      using "3.prems" valid cons True
      by (auto simp: try_values.simps Let_def split: sum.splits)
    have f1: "s1 = self \<and> store_extends ?h2 g1"
      using "3.IH"(1) [OF nn refl refl refl cons True bt] .
    show ?thesis
    proof (cases "r1 \<noteq> None")
      case True
      then have "r = r1 \<and> self' = s1 \<and> h' = g1"
        using "3.prems" valid cons \<open>b\<close> bt
        by (simp add: try_values.simps Let_def)
      then show ?thesis using f1 ext store_extends_trans by blast
    next
      case False
      then have tv: "try_values s1 g1 assignment var rest = Inr (r, self', h')"
        using "3.prems" valid cons \<open>b\<close> bt
        by (simp add: try_values.simps Let_def)
      have "self' = s1 \<and> store_extends g1 h'"
        using "3.IH"(2) [OF nn refl refl refl cons \<open>b\<close> bt refl refl False tv] .
      then show ?thesis using f1 ext store_extends_trans by blast
    qed
  next
    case False
    then have tv: "try_values self ?h2 assignment var rest = Inr (r, self', h')"
      using "3.prems" valid cons
      by (simp add: try_values.simps Let_def)
    have "self' = self \<and> store_extends ?h2 h'"
      using "3.IH"(3) [OF nn refl refl refl cons False tv] .
    then show ?thesis using ext store_extends_trans by blast
  qed
qed

lemma backtrack_cross3: "backtrack cross3 [[]] 0 = Inr (Some 3, cross3, store3)"
  by (simp add: search_defs ex_defs py_defs)

text \<open>
  C8. A call of \<^verbatim>\<open>backtrack\<close> that returns leaves \<^verbatim>\<open>self\<close>, and with it
  \<^verbatim>\<open>self.domains\<close>, as it was, and leaves every dictionary object that existed before
  the call as it was, the caller's \<^verbatim>\<open>assignment\<close> among them: tentative values are
  only written to objects the call allocates itself.
\<close>

theorem backtrack_frame_property:
  assumes "backtrack self h assignment = Inr (result, self', h')"
  shows "self' = self \<and> domains self' = domains self
         \<and> assignment < length h \<and> h' ! assignment = h ! assignment
         \<and> store_extends h h'"
proof -
  have valid: "assignment < length h"
    using assms by (simp add: backtrack.simps split: if_splits)
  have "self' = self \<and> store_extends h h'"
    using assms by (rule backtrack_frame(1))
  then show ?thesis using valid by (auto simp: store_extends_def)
qed

theorem backtrack_frame_property_witness:
  "backtrack cross3 [[]] 0 = Inr (Some 3, cross3, store3)
   \<and> store3 ! 0 = ([[]] :: store) ! 0
   \<and> store_extends [[]] store3"
  using backtrack_frame_property [OF backtrack_cross3] backtrack_cross3 by simp

subsection \<open>What the search returns\<close>

lemma set_update_cases:
  "p \<in> set (AList.update k v al) \<Longrightarrow> p = (k, v) \<or> p \<in> set al"
  by (induction al) (auto split: if_splits)

lemma drawn_from_update:
  "drawn_from self asg \<Longrightarrow> map_of (domains self) var = Some ws \<Longrightarrow> val \<in> set ws \<Longrightarrow>
   drawn_from self (AList.update var val asg)"
  unfolding drawn_from_def
  by (auto simp: distinct_update dest!: set_update_cases)

lemma backtrack_sound:
  "backtrack self h a = Inr (Some r, self', h') \<Longrightarrow>
     drawn_from self (h ! a) \<Longrightarrow> consistent self (h ! a) = Inr True \<Longrightarrow>
     r < length h' \<and> drawn_from self (h' ! r) \<and> consistent self (h' ! r) = Inr True
       \<and> length (h' ! r) = length (domains self)"
  "try_values self h a var vs = Inr (Some r, self', h') \<Longrightarrow>
     drawn_from self (h ! a) \<Longrightarrow> map_of (domains self) var = Some ws \<Longrightarrow> set vs \<subseteq> set ws \<Longrightarrow>
     r < length h' \<and> drawn_from self (h' ! r) \<and> consistent self (h' ! r) = Inr True
       \<and> length (h' ! r) = length (domains self)"
proof (induction self h a and self h a var vs arbitrary: r self' h' and r self' h' ws
       rule: backtrack_try_values.induct)
  case (1 self h assignment)
  note res = "1.prems"(1)
  have valid: "assignment < length h"
    using res by (simp add: backtrack.simps split: if_splits)
  show ?case
  proof (cases "length (h ! assignment) = length (domains self)")
    case True
    then have "r = assignment \<and> h' = h" using res valid by (simp add: backtrack.simps)
    then show ?thesis using "1.prems" valid True by simp
  next
    case False
    then obtain var vals where sel: "select_unassigned_variable self (h ! assignment) = Inr var"
      and gi: "getitem (domains self) var = Inr vals"
      and tv: "try_values self h assignment var vals = Inr (Some r, self', h')"
      using res valid by (auto simp: backtrack.simps split: sum.splits)
    have m: "map_of (domains self) var = Some vals"
      using gi by (simp add: getitem_def split: option.splits)
    have nn: "\<not> \<not> assignment < length h" using valid by simp
    show ?thesis
      using "1.IH" [OF nn False sel gi tv "1.prems"(2) m] by simp
  qed
next
  case (2 self h assignment var)
  then show ?case by (simp add: try_values.simps)
next
  case (3 self h assignment var val rest)
  let ?c = "length h"
  let ?h1 = "h @ [h ! assignment]"
  let ?h2 = "?h1[?c := AList.update var val (?h1 ! ?c)]"
  note res = "3.prems"(1)
  have valid: "assignment < length h"
    using res by (simp add: try_values.simps split: if_splits)
  have nn: "\<not> \<not> assignment < length h" using valid by simp
  have copy: "?h2 ! ?c = AList.update var val (h ! assignment)" by simp
  have keep: "?h2 ! assignment = h ! assignment" using valid by (simp add: nth_append)
  have val_in: "val \<in> set ws" and rest_in: "set rest \<subseteq> set ws" using "3.prems"(4) by auto
  have drawn_copy: "drawn_from self (?h2 ! ?c)"
    unfolding copy using "3.prems"(2,3) val_in by (rule drawn_from_update)
  obtain b where cons: "consistent self (?h2 ! ?c) = Inr b"
    using res valid by (auto simp: try_values.simps Let_def split: sum.splits)
  show ?case
  proof (cases b)
    case True
    obtain r1 s1 g1 where bt: "backtrack self ?h2 ?c = Inr (r1, s1, g1)"
      using res valid cons True by (auto simp: try_values.simps Let_def split: sum.splits)
    have fr: "s1 = self \<and> store_extends ?h2 g1" using bt by (rule backtrack_frame(1))
    show ?thesis
    proof (cases "r1 \<noteq> None")
      case True
      then have eq: "r1 = Some r \<and> self' = s1 \<and> h' = g1"
        using res valid cons \<open>b\<close> bt by (simp add: try_values.simps Let_def)
      have "backtrack self ?h2 ?c = Inr (Some r, self', h')" using bt eq by simp
      moreover have "consistent self (?h2 ! ?c) = Inr True" using cons \<open>b\<close> by simp
      ultimately show ?thesis
        using "3.IH"(1) [OF nn refl refl refl cons \<open>b\<close>] drawn_copy by blast
    next
      case False
      then have tv: "try_values s1 g1 assignment var rest = Inr (Some r, self', h')"
        using res valid cons \<open>b\<close> bt by (simp add: try_values.simps Let_def)
      have same: "g1 ! assignment = h ! assignment"
        using fr keep valid by (auto simp: store_extends_def)
      have d: "drawn_from s1 (g1 ! assignment)" using "3.prems"(2) fr same by simp
      have m: "map_of (domains s1) var = Some ws" using "3.prems"(3) fr by simp
      have "r < length h' \<and> drawn_from s1 (h' ! r) \<and> consistent s1 (h' ! r) = Inr True
          \<and> length (h' ! r) = length (domains s1)"
        using "3.IH"(2) [OF nn refl refl refl cons \<open>b\<close> bt refl refl False tv d m rest_in] .
      then show ?thesis using fr by simp
    qed
  next
    case False
    then have tv: "try_values self ?h2 assignment var rest = Inr (Some r, self', h')"
      using res valid cons by (simp add: try_values.simps Let_def)
    have d: "drawn_from self (?h2 ! assignment)" using "3.prems"(2) keep by simp
    show ?thesis
      using "3.IH"(3) [OF nn refl refl refl cons False tv d "3.prems"(3) rest_in] .
  qed
qed

subsection \<open>What \<^verbatim>\<open>consistent\<close> checks\<close>

lemma getitem_Inr: "getitem d k = Inr v \<longleftrightarrow> map_of d k = Some v"
  by (simp add: getitem_def split: option.splits)

lemma char_at_Inr: "char_at w k = Inr c \<longleftrightarrow> k < length w \<and> c = w ! k"
  by (auto simp: char_at_def)

lemma overlaps_at_Inr: "overlaps_at cw x y = Inr e \<longleftrightarrow> overlaps cw (x, y) = Some e"
  by (simp add: overlaps_at_def split: option.splits)

lemma unpack_Inr: "unpack e = Inr p \<longleftrightarrow> e = Some p"
  by (simp add: unpack_def split: option.splits)

lemma lengths_loop_True:
  "lengths_loop asg ks = Inr True \<Longrightarrow>
   \<forall>v \<in> set ks. \<exists>w. map_of asg v = Some w \<and> v_length v = length w"
  by (induction ks) (auto simp: bind_err_eq_Inr getitem_Inr split: if_splits)

lemma neighbors_loop_True:
  "neighbors_loop cw asg v ns = Inr True \<Longrightarrow>
   \<forall>n \<in> set ns. has_key asg n \<longrightarrow>
     (\<exists>x y wv wn. overlaps cw (v, n) = Some (Some (x, y))
        \<and> map_of asg v = Some wv \<and> map_of asg n = Some wn
        \<and> x < length wv \<and> y < length wn \<and> wv ! x = wn ! y)"
proof (induction ns)
  case Nil
  then show ?case by simp
next
  case (Cons n ns)
  show ?case
  proof (cases "has_key asg n")
    case False
    then show ?thesis using Cons by auto
  next
    case True
    from Cons.prems True obtain x y wv wn where
      "overlaps cw (v, n) = Some (Some (x, y))" "map_of asg v = Some wv" "map_of asg n = Some wn"
      "x < length wv" "y < length wn" "wv ! x = wn ! y"
      "neighbors_loop cw asg v ns = Inr True"
      by (auto simp: bind_err_eq_Inr getitem_Inr char_at_Inr overlaps_at_Inr unpack_Inr
               split: if_splits)
    then show ?thesis using Cons.IH by auto
  qed
qed

lemma overlaps_loop_True:
  "overlaps_loop cw asg ks = Inr True \<Longrightarrow>
   \<forall>v \<in> set ks. neighbors_loop cw asg v (neighbors cw v) = Inr True"
  by (induction ks) (auto simp: bind_err_eq_Inr split: if_splits)

lemma consistent_True:
  assumes "consistent self asg = Inr True"
  shows "distinct (map snd asg)"
    and "lengths_loop asg (map fst asg) = Inr True"
    and "overlaps_loop (crossword self) asg (map fst asg) = Inr True"
proof -
  have c: "length (map snd asg) = card (set (map snd asg))"
    using assms by (auto simp: consistent_def Let_def split: if_splits)
  then show "distinct (map snd asg)" by (metis card_distinct)
  show "lengths_loop asg (map fst asg) = Inr True"
    using assms c by (auto simp: consistent_def Let_def bind_err_eq_Inr split: if_splits)
  then show "overlaps_loop (crossword self) asg (map fst asg) = Inr True"
    using assms c by (auto simp: consistent_def Let_def bind_err_eq_Inr split: if_splits)
qed

lemma consistent_True_properties:
  assumes cons: "consistent self asg = Inr True" and dist: "distinct (map fst asg)"
  shows "distinct (map snd asg)"
    and "\<forall>(v, w) \<in> set asg. length w = v_length v"
    and "\<forall>(v, w) \<in> set asg. \<forall>(n, w') \<in> set asg. n \<in> set (neighbors (crossword self) v) \<longrightarrow>
         (\<exists>x y. overlaps (crossword self) (v, n) = Some (Some (x, y))
             \<and> x < length w \<and> y < length w' \<and> w ! x = w' ! y)"
proof -
  show "distinct (map snd asg)" using cons by (rule consistent_True(1))
  show "\<forall>(v, w) \<in> set asg. length w = v_length v"
  proof (intro ballI, clarify)
    fix v w assume vw: "(v, w) \<in> set asg"
    then have "v \<in> set (map fst asg)" by force
    then obtain w0 where "map_of asg v = Some w0" "v_length v = length w0"
      using lengths_loop_True [OF consistent_True(2) [OF cons]] by blast
    then show "length w = v_length v" using vw dist by simp
  qed
  show "\<forall>(v, w) \<in> set asg. \<forall>(n, w') \<in> set asg. n \<in> set (neighbors (crossword self) v) \<longrightarrow>
         (\<exists>x y. overlaps (crossword self) (v, n) = Some (Some (x, y))
             \<and> x < length w \<and> y < length w' \<and> w ! x = w' ! y)"
  proof (intro ballI, clarify)
    fix v w n w'
    assume vw: "(v, w) \<in> set asg" and nw: "(n, w') \<in> set asg"
      and nb: "n \<in> set (neighbors (crossword self) v)"
    have "neighbors_loop (crossword self) asg v (neighbors (crossword self) v) = Inr True"
      using overlaps_loop_True [OF consistent_True(3) [OF cons]] vw by force
    moreover have "has_key asg n" using nw by (force simp: has_key_def)
    ultimately obtain x y wv wn where
      o: "overlaps (crossword self) (v, n) = Some (Some (x, y))"
      and "map_of asg v = Some wv" "map_of asg n = Some wn"
      and b: "x < length wv" "y < length wn" "wv ! x = wn ! y"
      using neighbors_loop_True nb by blast
    then have "wv = w" "wn = w'" using vw nw dist by simp_all
    then show "\<exists>x y. overlaps (crossword self) (v, n) = Some (Some (x, y))
             \<and> x < length w \<and> y < length w' \<and> w ! x = w' ! y"
      using o b by blast
  qed
qed


subsection \<open>What the preprocessing keeps\<close>

lemma set_remove_Inr: "set_remove s w = Inr s' \<longleftrightarrow> w \<in> set s \<and> s' = remove1 w s"
  by (auto simp: set_remove_def)

lemma update_present_keys:
  "map_of d k = Some v \<Longrightarrow> map fst (AList.update k v' d) = map fst d"
  by (auto simp: update_keys dest: map_of_SomeD intro: rev_image_eqI)

lemma revise_loop_preserves:
  assumes step: "\<And>v ws w. P v ws \<Longrightarrow> P v (remove1 w ws)"
  shows "revise_loop x y ox oy cx rv d = Inr (rv', d') \<Longrightarrow> \<forall>(v, ws) \<in> set d. P v ws \<Longrightarrow>
         map fst d' = map fst d \<and> (\<forall>(v, ws) \<in> set d'. P v ws)"
proof (induction cx arbitrary: rv d)
  case Nil
  then show ?case by simp
next
  case (Cons word_x rest)
  from Cons.prems(1) obtain dy m where dy: "map_of d y = Some dy"
    and fm: "find_match word_x ox oy dy = Inr m"
    by (auto simp: bind_err_eq_Inr getitem_Inr)
  show ?case
  proof (cases m)
    case True
    then have "revise_loop x y ox oy rest rv d = Inr (rv', d')"
      using Cons.prems(1) dy fm by (simp add: getitem_Some)
    then show ?thesis using Cons.IH Cons.prems(2) by blast
  next
    case False
    then obtain dx where dx: "map_of d x = Some dx" and mem: "word_x \<in> set dx"
      and rec: "revise_loop x y ox oy rest True (AList.update x (remove1 word_x dx) d) = Inr (rv', d')"
      using Cons.prems(1) dy fm
      by (auto simp: getitem_Some bind_err_eq_Inr getitem_Inr set_remove_Inr)
    let ?d1 = "AList.update x (remove1 word_x dx) d"
    have "(x, dx) \<in> set d" using dx by (rule map_of_SomeD)
    then have "P x (remove1 word_x dx)" using Cons.prems(2) step by blast
    then have inv1: "\<forall>(v, ws) \<in> set ?d1. P v ws"
      using Cons.prems(2) by (auto dest!: set_update_cases)
    have keys1: "map fst ?d1 = map fst d" using dx by (rule update_present_keys)
    show ?thesis using Cons.IH [OF rec inv1] keys1 by simp
  qed
qed

lemma revise_preserves:
  assumes step: "\<And>v ws w. P v ws \<Longrightarrow> P v (remove1 w ws)"
    and rv: "revise self x y = Inr (b, self')"
    and inv: "\<forall>(v, ws) \<in> set (domains self). P v ws"
  shows "crossword self' = crossword self \<and> map fst (domains self') = map fst (domains self)
         \<and> (\<forall>(v, ws) \<in> set (domains self'). P v ws)"
proof -
  from rv obtain ox oy where un: "overlaps (crossword self) (x, y) = Some (Some (ox, oy))"
    by (auto simp: revise_def bind_err_eq_Inr overlaps_at_Inr unpack_Inr)
  show ?thesis
  proof (cases "ox = 0")
    case True
    then have "self' = self" using rv un
      by (simp add: revise_def overlaps_at_def unpack_def)
    then show ?thesis using inv by simp
  next
    case False
    then obtain cx d' where
      "revise_loop x y ox oy cx False (domains self) = Inr (b, d')" "self' = self\<lparr>domains := d'\<rparr>"
      using rv un
      by (auto simp: revise_def overlaps_at_def unpack_def Let_def bind_err_eq_Inr)
    then show ?thesis using revise_loop_preserves [of P, OF step _ inv] by fastforce
  qed
qed

lemma ac3_preserves:
  assumes step: "\<And>v ws w. P v ws \<Longrightarrow> P v (remove1 w ws)"
    and run: "ac3 self arcs = Inr (res, self')"
    and inv: "\<forall>(v, ws) \<in> set (domains self). P v ws"
  shows "crossword self' = crossword self \<and> map fst (domains self') = map fst (domains self)
         \<and> (\<forall>(v, ws) \<in> set (domains self'). P v ws)"
proof -
  from run obtain queue q' where w: "ac3_while self queue = Inr (res, q', self')"
    by (auto simp: ac3_def ac3_queue_def bind_err_eq_Inr split: if_splits)
  show ?thesis
  proof (cases queue)
    case Nil
    then show ?thesis using w inv by (simp add: ac3_while_def)
  next
    case (Cons arc rest)
    obtain x y where arc: "arc = (x, y)" by (cases arc)
    from w Cons arc obtain b where "revise self x y = Inr (b, self')"
      by (auto simp: ac3_while_def bind_err_eq_Inr split: if_splits)
    then show ?thesis using revise_preserves [of P, OF step _ inv] by blast
  qed
qed


subsection \<open>Soundness of \<^verbatim>\<open>solve\<close>\<close>

lemma consistent_empty: "consistent self [] = Inr True"
  by (simp add: consistent_def)

lemma drawn_from_empty: "drawn_from self []"
  by (simp add: drawn_from_def)

lemma drawn_from_keys: "drawn_from self asg \<Longrightarrow> set (map fst asg) \<subseteq> set (map fst (domains self))"
  by (force simp: drawn_from_def dest: map_of_SomeD)

lemma keys_complete:
  assumes "distinct ks" "distinct vs" "set ks \<subseteq> set vs" "length ks = length vs"
  shows "set ks = set vs"
proof -
  have "card (set ks) = card (set vs)" using assms by (simp add: distinct_card)
  then show ?thesis using assms(3) by (simp add: card_subset_eq)
qed

lemma assignment_complete_iff:
  "assignment_complete self asg \<longleftrightarrow> set (map fst (domains self)) \<subseteq> set (map fst asg)"
proof -
  have "assignment_complete_loop ks asg \<longleftrightarrow> set ks \<subseteq> set (map fst asg)" for ks
    by (induction ks) (auto simp: has_key_def)
  then show ?thesis by (simp add: assignment_complete_def)
qed

lemma solve_Inr:
  "solve self h = Inr res \<longleftrightarrow>
   (\<exists>self1 res_ac self2. enforce_node_consistency self = Inr self1
      \<and> ac3 self1 None = Inr (res_ac, self2)
      \<and> backtrack self2 (h @ [[]]) (length h) = Inr res)"
  by (auto simp: solve_def bind_err_eq_Inr)

text \<open>What a successful \<^verbatim>\<open>solve\<close> returns, for any \<^verbatim>\<open>self\<close> whose domains are a
  dictionary.\<close>

lemma solve_returns:
  assumes dist: "distinct (map fst (domains self))"
    and run: "solve self h = Inr (Some r, self', h')"
  shows "r < length h'"
    and "crossword self' = crossword self"
    and "map fst (domains self') = map fst (domains self)"
    and "drawn_from self' (h' ! r)"
    and "consistent self' (h' ! r) = Inr True"
    and "set (map fst (h' ! r)) = set (map fst (domains self))"
proof -
  from run obtain self1 res_ac self2 where
    e: "enforce_node_consistency self = Inr self1"
    and a: "ac3 self1 None = Inr (res_ac, self2)"
    and b: "backtrack self2 (h @ [[]]) (length h) = Inr (Some r, self', h')"
    unfolding solve_Inr by blast
  have s1: "self1 = self\<lparr>domains := map right_length (domains self)\<rparr>"
    using e enforce_node_consistency_eq [OF dist] by simp
  have k1: "map fst (domains self1) = map fst (domains self)" "crossword self1 = crossword self"
    unfolding s1 by (induction "domains self") auto
  have k2: "crossword self2 = crossword self1 \<and> map fst (domains self2) = map fst (domains self1)
      \<and> (\<forall>(v, ws) \<in> set (domains self2). True)"
    by (rule ac3_preserves [of "\<lambda>v ws. True", OF _ a]) simp_all
  have fr: "self' = self2" using backtrack_frame(1) [OF b] by simp
  have snd: "r < length h' \<and> drawn_from self2 (h' ! r) \<and> consistent self2 (h' ! r) = Inr True
      \<and> length (h' ! r) = length (domains self2)"
    by (rule backtrack_sound(1) [OF b]) (simp_all add: drawn_from_empty consistent_empty)
  show "r < length h'" using snd by simp
  show "crossword self' = crossword self" using fr k1 k2 by simp
  show keys: "map fst (domains self') = map fst (domains self)" using fr k1 k2 by simp
  show d: "drawn_from self' (h' ! r)" using fr snd by simp
  show "consistent self' (h' ! r) = Inr True" using fr snd by simp
  have "set (map fst (h' ! r)) = set (map fst (domains self'))"
  proof (rule keys_complete)
    show "distinct (map fst (h' ! r))" using d by (simp add: drawn_from_def)
    show "distinct (map fst (domains self'))" using keys dist by simp
    show "set (map fst (h' ! r)) \<subseteq> set (map fst (domains self'))" using d by (rule drawn_from_keys)
    show "length (map fst (h' ! r)) = length (map fst (domains self'))" using snd fr by simp
  qed
  then show "set (map fst (h' ! r)) = set (map fst (domains self))" using keys by simp
qed

lemma creator_init_keys [simp]:
  "map fst (domains (creator_init cw)) = variables cw" "crossword (creator_init cw) = cw"
  by (simp_all add: creator_init_def comp_def)

lemma solve_complete_consistent:
  assumes "distinct (variables cw)"
    and "solve (creator_init cw) h = Inr (Some r, self', h')"
  shows "complete_consistent cw (h' ! r)"
proof -
  have dist: "distinct (map fst (domains (creator_init cw)))" using assms(1) by simp
  note res = solve_returns [OF dist assms(2)]
  have dk: "distinct (map fst (h' ! r))" using res(4) by (simp add: drawn_from_def)
  note props = consistent_True_properties [OF res(5) dk]
  show ?thesis
    unfolding complete_consistent_def using dk res(6) props res(2) by simp
qed

text \<open>
  C1. Whenever \<^verbatim>\<open>solve()\<close>, called on a freshly constructed solver for a puzzle whose
  variables form a set, returns an assignment and not \<^verbatim>\<open>None\<close>, the returned dictionary
  is a consistent complete assignment of the puzzle: its keys are exactly the variables,
  each with one word, the words are pairwise distinct, each has the length of its
  variable, and neighbouring variables agree at their overlap indices. It also passes the
  solver's own \<^verbatim>\<open>assignment_complete\<close> and \<^verbatim>\<open>consistent\<close>.
\<close>

theorem solve_sound:
  assumes "distinct (variables cw)"
    and "solve (creator_init cw) h = Inr (Some r, self', h')"
  shows "r < length h' \<and> complete_consistent cw (h' ! r)
         \<and> assignment_complete self' (h' ! r) \<and> consistent self' (h' ! r) = Inr True"
proof -
  have dist: "distinct (map fst (domains (creator_init cw)))" using assms(1) by simp
  note res = solve_returns [OF dist assms(2)]
  have "complete_consistent cw (h' ! r)"
    using assms by (rule solve_complete_consistent)
  moreover have "assignment_complete self' (h' ! r)"
    using res(3,6) by (simp add: assignment_complete_iff)
  ultimately show ?thesis using res(1,5) by simp
qed

lemma solve_cross3:
  "solve (creator_init (cross [''CAT'', ''ARE'', ''DOG''])) [] = Inr (Some 3, cross3, store3)"
  by (simp add: solve_def enforce_node_consistency_def ac3_def ac3_queue_def ac3_while_def
      revise_def search_defs ex_defs py_defs)

theorem solve_sound_witness:
  "distinct (variables (cross [''CAT'', ''ARE'', ''DOG'']))
   \<and> solve (creator_init (cross [''CAT'', ''ARE'', ''DOG''])) [] = Inr (Some 3, cross3, store3)
   \<and> store3 ! 3 = [(ac, ''CAT''), (dn, ''ARE'')]
   \<and> complete_consistent (cross [''CAT'', ''ARE'', ''DOG'']) (store3 ! 3)
   \<and> assignment_complete cross3 (store3 ! 3)
   \<and> consistent cross3 (store3 ! 3) = Inr True"
proof -
  have h: "distinct (variables (cross [''CAT'', ''ARE'', ''DOG'']))"
    by (simp add: ex_defs)
  show ?thesis
    using h solve_cross3 solve_sound [OF h solve_cross3] by (simp add: store3_def)
qed

subsection \<open>No exception on a well-formed puzzle\<close>

lemma candidates_ok_remove1: "candidates_ok cw v ws \<Longrightarrow> candidates_ok cw v (remove1 w ws)"
  by (auto simp: candidates_ok_def dest: notin_set_remove1)

lemma find_match_returns:
  "ox < length word_x \<Longrightarrow> \<forall>w \<in> set dy. oy < length w \<Longrightarrow>
   \<exists>m. find_match word_x ox oy dy = Inr m"
  by (induction dy) (auto simp: char_at_def)

lemma revise_loop_returns:
  "map_of d x = Some dx \<Longrightarrow> set cx \<subseteq> set dx \<Longrightarrow> distinct cx \<Longrightarrow>
   \<forall>w \<in> set dx. ox < length w \<Longrightarrow>
   map_of d y = Some dy \<Longrightarrow> \<forall>w \<in> set dy. oy < length w \<Longrightarrow>
   \<exists>res. revise_loop x y ox oy cx rv d = Inr res"
proof (induction cx arbitrary: d dx dy rv)
  case Nil
  then show ?case by simp
next
  case (Cons word_x rest)
  have wx: "word_x \<in> set dx" "word_x \<notin> set rest" "set rest \<subseteq> set dx" "distinct rest"
    using Cons.prems(2,3) by auto
  then have "ox < length word_x" using Cons.prems(4) by blast
  then obtain m where fm: "find_match word_x ox oy dy = Inr m"
    using find_match_returns Cons.prems(6) by blast
  show ?case
  proof (cases m)
    case True
    have "\<exists>res. revise_loop x y ox oy rest rv d = Inr res"
      using Cons.prems(1) wx(3,4) Cons.prems(4,5,6) by (rule Cons.IH)
    then show ?thesis using True fm Cons.prems(5) by (simp add: getitem_Some)
  next
    case False
    let ?dx' = "remove1 word_x dx"
    let ?d1 = "AList.update x ?dx' d"
    have a1: "map_of ?d1 x = Some ?dx'" by (simp add: update_conv')
    have a2: "set rest \<subseteq> set ?dx'"
    proof
      fix w assume "w \<in> set rest"
      then have "w \<noteq> word_x" "w \<in> set dx" using wx by auto
      then show "w \<in> set ?dx'" by (simp add: in_set_remove1)
    qed
    have a4: "\<forall>w \<in> set ?dx'. ox < length w"
      using Cons.prems(4) by (auto dest: notin_set_remove1)
    obtain dy' where a5: "map_of ?d1 y = Some dy'" and a6: "\<forall>w \<in> set dy'. oy < length w"
    proof (cases "y = x")
      case True
      then have "dy = dx" using Cons.prems(1,5) by simp
      then have "\<forall>w \<in> set ?dx'. oy < length w"
        using Cons.prems(6) by (auto dest: notin_set_remove1)
      then show ?thesis using that True a1 by blast
    next
      case False
      then have "map_of ?d1 y = Some dy" using Cons.prems(5) by (simp add: update_conv')
      then show ?thesis using that Cons.prems(6) by blast
    qed
    have "\<exists>res. revise_loop x y ox oy rest True ?d1 = Inr res"
      using a1 a2 wx(4) a4 a5 a6 by (rule Cons.IH)
    then show ?thesis
      using False fm Cons.prems(1,5) wx(1) by (simp add: getitem_Some set_remove_def)
  qed
qed


lemma key_lookup: "k \<in> set (map fst d) \<Longrightarrow> \<exists>v. map_of d k = Some v \<and> (k, v) \<in> set d"
  by (induction d) auto

lemma solver_ok_lookup:
  assumes "solver_ok self" "v \<in> set (variables (crossword self))"
  shows "\<exists>ws. map_of (domains self) v = Some ws \<and> candidates_ok (crossword self) v ws"
proof -
  have "v \<in> set (map fst (domains self))" using assms by (simp add: solver_ok_def)
  from key_lookup [OF this]
  obtain ws where ws: "map_of (domains self) v = Some ws" "(v, ws) \<in> set (domains self)"
    by blast
  have "\<forall>(v, ws) \<in> set (domains self). candidates_ok (crossword self) v ws"
    using assms(1) by (simp add: solver_ok_def)
  then have "candidates_ok (crossword self) v ws" using ws(2) by blast
  then show ?thesis using ws(1) by blast
qed

lemma revise_returns:
  assumes ok: "solver_ok self"
    and x: "x \<in> set (variables (crossword self))"
    and y: "y \<in> set (neighbors (crossword self) x)"
  shows "\<exists>res. revise self x y = Inr res"
proof -
  have wf: "wf_crossword (crossword self)" using ok by (simp add: solver_ok_def)
  from wf x y obtain ox oy where
    o: "overlaps (crossword self) (x, y) = Some (Some (ox, oy))"
    and b: "ox < v_length x" "oy < v_length y" and yv: "y \<in> set (variables (crossword self))"
    unfolding wf_crossword_def by blast
  obtain dx where dx: "map_of (domains self) x = Some dx" "candidates_ok (crossword self) x dx"
    using solver_ok_lookup [OF ok x] by blast
  obtain dy where dy: "map_of (domains self) y = Some dy" "candidates_ok (crossword self) y dy"
    using solver_ok_lookup [OF ok yv] by blast
  have "\<exists>res. revise_loop x y ox oy dx False (domains self) = Inr res"
    (is "\<exists>res. ?loop = Inr res")
  proof (rule revise_loop_returns [OF dx(1) _ _ _ dy(1)])
    show "set dx \<subseteq> set dx" by simp
    show "distinct dx" using dx(2) by (simp add: candidates_ok_def)
    show "\<forall>w \<in> set dx. ox < length w" using dx(2) b(1) by (simp add: candidates_ok_def)
    show "\<forall>w \<in> set dy. oy < length w" using dy(2) b(2) by (simp add: candidates_ok_def)
  qed
  then obtain rv d' where loop: "?loop = Inr (rv, d')" by fastforce
  have "revise self x y
      = (if ox \<noteq> 0 then Inr (rv, self\<lparr>domains := d'\<rparr>) else Inr (False, self))"
    using o dx(1) loop by (simp add: revise_def overlaps_at_def unpack_def getitem_Some)
  then show ?thesis by (cases "ox = 0") auto
qed

lemma append_arcs_returns:
  "\<forall>n \<in> set ns. \<exists>e. overlaps cw (v, n) = Some e \<Longrightarrow>
   \<exists>q'. append_arcs cw v ns q = Inr q' \<and> set q' \<subseteq> set q \<union> {v} \<times> set ns"
proof (induction ns arbitrary: q)
  case Nil
  then show ?case by simp
next
  case (Cons n ns)
  then obtain e where e: "overlaps cw (v, n) = Some e" by auto
  let ?q1 = "if e \<noteq> None then q @ [(v, n)] else q"
  obtain q' where "append_arcs cw v ns ?q1 = Inr q'" "set q' \<subseteq> set ?q1 \<union> {v} \<times> set ns"
    using Cons.IH [of ?q1] Cons.prems by auto
  then show ?case using e by (auto simp: overlaps_at_def split: if_splits)
qed

lemma initial_queue_returns:
  "\<forall>v \<in> set vars. \<forall>n \<in> set (neighbors cw v). \<exists>e. overlaps cw (v, n) = Some e \<Longrightarrow>
   \<exists>q'. initial_queue cw vars q = Inr q'
      \<and> set q' \<subseteq> set q \<union> {(v, n). v \<in> set vars \<and> n \<in> set (neighbors cw v)}"
proof (induction vars arbitrary: q)
  case Nil
  then show ?case by simp
next
  case (Cons v vars)
  obtain q1 where q1: "append_arcs cw v (neighbors cw v) q = Inr q1"
    "set q1 \<subseteq> set q \<union> {v} \<times> set (neighbors cw v)"
    using append_arcs_returns [of "neighbors cw v" cw v q] Cons.prems by auto
  obtain q' where "initial_queue cw vars q1 = Inr q'"
    "set q' \<subseteq> set q1 \<union> {(v, n). v \<in> set vars \<and> n \<in> set (neighbors cw v)}"
    using Cons.IH [of q1] Cons.prems by auto
  then show ?case using q1 by auto
qed

lemma ac3_returns:
  assumes ok: "solver_ok self"
  shows "\<exists>res self'. ac3 self None = Inr (res, self')"
proof -
  let ?cw = "crossword self"
  have wf: "wf_crossword ?cw" and keys: "map fst (domains self) = variables ?cw"
    using ok by (simp_all add: solver_ok_def)
  have "\<forall>v \<in> set (variables ?cw). \<forall>n \<in> set (neighbors ?cw v). \<exists>e. overlaps ?cw (v, n) = Some e"
    using wf unfolding wf_crossword_def by blast
  then obtain q where q: "initial_queue ?cw (variables ?cw) [] = Inr q"
    "set q \<subseteq> {(v, n). v \<in> set (variables ?cw) \<and> n \<in> set (neighbors ?cw v)}"
    using initial_queue_returns [of "variables ?cw" ?cw "[]"] by auto
  have "\<exists>res. ac3_while self q = Inr res"
  proof (cases q)
    case Nil
    then show ?thesis by (simp add: ac3_while_def)
  next
    case (Cons arc rest)
    obtain x y where arc: "arc = (x, y)" by (cases arc)
    have xy: "x \<in> set (variables ?cw)" "y \<in> set (neighbors ?cw x)"
      using q(2) Cons arc by auto
    obtain b self' where rv: "revise self x y = Inr (b, self')"
      using revise_returns [OF ok xy] by fastforce
    have "map fst (domains self') = map fst (domains self)"
      using revise_preserves [of "\<lambda>v ws. True", OF _ rv] by simp
    then have "x \<in> set (map fst (domains self'))" using xy(1) keys by simp
    from key_lookup [OF this] obtain dx where "map_of (domains self') x = Some dx" by blast
    then show ?thesis using Cons arc rv by (simp add: ac3_while_def getitem_Some)
  qed
  then show ?thesis using q(1) keys by (auto simp: ac3_def ac3_queue_def)
qed


lemma lengths_loop_returns:
  "set ks \<subseteq> set (map fst asg) \<Longrightarrow> \<exists>b. lengths_loop asg ks = Inr b"
proof (induction ks)
  case Nil
  then show ?case by auto
next
  case (Cons k ks)
  then have "k \<in> set (map fst asg)" by simp
  from key_lookup [OF this] obtain w where "map_of asg k = Some w" by blast
  then show ?case using Cons by (auto simp: getitem_Some)
qed

lemma neighbors_loop_returns:
  assumes lens: "\<forall>k \<in> set (map fst asg). \<exists>w. map_of asg k = Some w \<and> v_length k = length w"
    and v: "v \<in> set (map fst asg)"
  shows "\<forall>n \<in> set ns. \<exists>x y. overlaps cw (v, n) = Some (Some (x, y))
            \<and> x < v_length v \<and> y < v_length n \<Longrightarrow>
         \<exists>b. neighbors_loop cw asg v ns = Inr b"
proof (induction ns)
  case Nil
  then show ?case by auto
next
  case (Cons n ns)
  then have ih: "\<exists>b. neighbors_loop cw asg v ns = Inr b" by simp
  show ?case
  proof (cases "has_key asg n")
    case False
    then show ?thesis using ih by auto
  next
    case True
    obtain x y where o: "overlaps cw (v, n) = Some (Some (x, y))"
      and b: "x < v_length v" "y < v_length n"
      using Cons.prems by auto
    obtain wv where wv: "map_of asg v = Some wv" "v_length v = length wv"
      using lens v by blast
    obtain wn where wn: "map_of asg n = Some wn" "v_length n = length wn"
      using lens True unfolding has_key_def by blast
    show ?thesis
      using True o b wv wn ih
      by (auto simp: overlaps_at_def unpack_def getitem_Some char_at_def)
  qed
qed

lemma overlaps_loop_returns:
  assumes lens: "\<forall>k \<in> set (map fst asg). \<exists>w. map_of asg k = Some w \<and> v_length k = length w"
  shows "\<forall>v \<in> set ks. v \<in> set (map fst asg)
            \<and> (\<forall>n \<in> set (neighbors cw v). \<exists>x y. overlaps cw (v, n) = Some (Some (x, y))
                  \<and> x < v_length v \<and> y < v_length n) \<Longrightarrow>
         \<exists>b. overlaps_loop cw asg ks = Inr b"
proof (induction ks)
  case Nil
  then show ?case by auto
next
  case (Cons v ks)
  then have ih: "\<exists>b. overlaps_loop cw asg ks = Inr b" by simp
  have "\<exists>b. neighbors_loop cw asg v (neighbors cw v) = Inr b"
    using Cons.prems by (intro neighbors_loop_returns [OF lens]) auto
  then show ?case using ih by auto
qed

lemma consistent_returns:
  assumes wf: "wf_crossword (crossword self)"
    and keys: "set (map fst asg) \<subseteq> set (variables (crossword self))"
  shows "\<exists>b. consistent self asg = Inr b"
proof -
  obtain ok where ok: "lengths_loop asg (map fst asg) = Inr ok"
    using lengths_loop_returns [of "map fst asg" asg] by auto
  show ?thesis
  proof (cases ok)
    case False
    then show ?thesis using ok by (auto simp: consistent_def Let_def)
  next
    case True
    then have "lengths_loop asg (map fst asg) = Inr True" using ok by simp
    then have lens: "\<forall>k \<in> set (map fst asg). \<exists>w. map_of asg k = Some w \<and> v_length k = length w"
      by (rule lengths_loop_True)
    have "\<exists>b. overlaps_loop (crossword self) asg (map fst asg) = Inr b"
    proof (rule overlaps_loop_returns [OF lens], intro ballI conjI)
      fix v assume v: "v \<in> set (map fst asg)"
      then show "v \<in> set (map fst asg)" .
      fix n assume "n \<in> set (neighbors (crossword self) v)"
      then show "\<exists>x y. overlaps (crossword self) (v, n) = Some (Some (x, y))
                  \<and> x < v_length v \<and> y < v_length n"
        using wf keys v unfolding wf_crossword_def by blast
    qed
    then show ?thesis using ok True by (auto simp: consistent_def Let_def)
  qed
qed

lemma select_unassigned_variable_returns:
  assumes "distinct (map fst asg)" "distinct (map fst (domains self))"
    and "set (map fst asg) \<subseteq> set (map fst (domains self))"
    and "length asg \<noteq> length (domains self)"
  shows "\<exists>var. select_unassigned_variable self asg = Inr var"
proof -
  have "\<exists>k \<in> set (map fst (domains self)). k \<notin> set (map fst asg)"
  proof (rule ccontr)
    assume "\<not> ?thesis"
    then have "set (map fst asg) = set (map fst (domains self))" using assms(3) by blast
    then have "card (set (map fst asg)) = card (set (map fst (domains self)))" by simp
    then have "length (map fst asg) = length (map fst (domains self))"
      using distinct_card [OF assms(1)] distinct_card [OF assms(2)] by simp
    then show False using assms(4) by simp
  qed
  then obtain k ws where "(k, ws) \<in> set (domains self)" "\<not> has_key asg k"
    unfolding has_key_def by fastforce
  then have "(k, ws) \<in> set (filter (\<lambda>(var, ws). \<not> has_key asg var) (domains self))"
    by simp
  then have "filter (\<lambda>(var, ws). \<not> has_key asg var) (domains self) \<noteq> []"
    by (metis empty_iff empty_set)
  then have "length (sort_key (\<lambda>item. length (snd item))
                (filter (\<lambda>(var, ws). \<not> has_key asg var) (domains self))) \<noteq> 0"
    by (simp only: length_sort length_0_conv not_False_eq_True)
  then have "map fst (sort_key (\<lambda>item. length (snd item))
                (filter (\<lambda>(var, ws). \<not> has_key asg var) (domains self))) \<noteq> []"
    by (simp only: length_0_conv map_is_Nil_conv not_False_eq_True)
  then show ?thesis
    by (simp add: select_unassigned_variable_def Let_def split: list.splits)
qed


lemma solver_ok_keys:
  assumes "solver_ok self"
  shows "distinct (map fst (domains self))"
    and "set (map fst (domains self)) = set (variables (crossword self))"
    and "wf_crossword (crossword self)"
  using assms by (simp_all add: solver_ok_def wf_crossword_def)

lemma backtrack_returns:
  "solver_ok self \<Longrightarrow> a < length h \<Longrightarrow> drawn_from self (h ! a) \<Longrightarrow>
     \<exists>res. backtrack self h a = Inr res"
  "solver_ok self \<Longrightarrow> a < length h \<Longrightarrow> drawn_from self (h ! a) \<Longrightarrow>
     map_of (domains self) var = Some ws \<Longrightarrow> set vs \<subseteq> set ws \<Longrightarrow>
     \<exists>res. try_values self h a var vs = Inr res"
proof (induction self h a and self h a var vs arbitrary: and ws
       rule: backtrack_try_values.induct)
  case (1 self h assignment)
  note ok = "1.prems"(1) and valid = "1.prems"(2) and drawn = "1.prems"(3)
  have nn: "\<not> \<not> assignment < length h" using valid by simp
  show ?case
  proof (cases "length (h ! assignment) = length (domains self)")
    case True
    then show ?thesis using valid by (simp add: backtrack.simps)
  next
    case False
    have "\<exists>var. select_unassigned_variable self (h ! assignment) = Inr var"
    proof (rule select_unassigned_variable_returns)
      show "distinct (map fst (h ! assignment))" using drawn by (simp add: drawn_from_def)
      show "distinct (map fst (domains self))" using ok by (rule solver_ok_keys(1))
      show "set (map fst (h ! assignment)) \<subseteq> set (map fst (domains self))"
        using drawn by (rule drawn_from_keys)
      show "length (h ! assignment) \<noteq> length (domains self)" using False .
    qed
    then obtain var where sel: "select_unassigned_variable self (h ! assignment) = Inr var"
      by blast
    then have "var \<in> set (map fst (domains self))"
      using select_unassigned_variable_Inr by blast
    from key_lookup [OF this] obtain vals where m: "map_of (domains self) var = Some vals"
      by blast
    then have gi: "getitem (domains self) var = Inr vals" by (rule getitem_Some)
    have "\<exists>res. try_values self h assignment var vals = Inr res"
      using "1.IH" [OF nn False sel gi ok valid drawn m] by simp
    then show ?thesis using valid False sel gi by (simp add: backtrack.simps)
  qed
next
  case (2 self h assignment var)
  then show ?case by (simp add: try_values.simps)
next
  case (3 self h assignment var val rest)
  let ?c = "length h"
  let ?h1 = "h @ [h ! assignment]"
  let ?h2 = "?h1[?c := AList.update var val (?h1 ! ?c)]"
  note ok = "3.prems"(1) and valid = "3.prems"(2) and drawn = "3.prems"(3)
    and m = "3.prems"(4)
  have nn: "\<not> \<not> assignment < length h" using valid by simp
  have copy: "?h2 ! ?c = AList.update var val (h ! assignment)" by simp
  have keep: "?h2 ! assignment = h ! assignment" using valid by (simp add: nth_append)
  have val_in: "val \<in> set ws" and rest_in: "set rest \<subseteq> set ws" using "3.prems"(5) by auto
  have drawn_copy: "drawn_from self (?h2 ! ?c)"
    unfolding copy using drawn m val_in by (rule drawn_from_update)
  have c_valid: "?c < length ?h2" by simp
  have a_valid: "assignment < length ?h2" using valid by simp
  have "set (map fst (?h2 ! ?c)) \<subseteq> set (variables (crossword self))"
    using drawn_from_keys [OF drawn_copy] solver_ok_keys(2) [OF ok] by simp
  then obtain b where cons: "consistent self (?h2 ! ?c) = Inr b"
    using consistent_returns [OF solver_ok_keys(3) [OF ok]] by blast
  show ?case
  proof (cases b)
    case True
    obtain r1 s1 g1 where bt: "backtrack self ?h2 ?c = Inr (r1, s1, g1)"
      using "3.IH"(1) [OF nn refl refl refl cons True ok c_valid drawn_copy] by fastforce
    have fr: "s1 = self \<and> store_extends ?h2 g1" using bt by (rule backtrack_frame(1))
    show ?thesis
    proof (cases "r1 \<noteq> None")
      case True
      then show ?thesis using valid cons \<open>b\<close> bt by (simp add: try_values.simps Let_def)
    next
      case False
      have same: "assignment < length g1" "g1 ! assignment = h ! assignment"
        using fr keep a_valid by (auto simp: store_extends_def)
      have "\<exists>res. try_values s1 g1 assignment var rest = Inr res"
        using "3.IH"(2) [OF nn refl refl refl cons \<open>b\<close> bt refl refl False _ same(1) _ _ rest_in]
          ok drawn m fr same(2) by simp
      then show ?thesis using False valid cons \<open>b\<close> bt by (simp add: try_values.simps Let_def)
    qed
  next
    case False
    have "\<exists>res. try_values self ?h2 assignment var rest = Inr res"
      using "3.IH"(3) [OF nn refl refl refl cons False ok a_valid _ m rest_in] drawn keep
      by simp
    then show ?thesis using False valid cons by (simp add: try_values.simps Let_def)
  qed
qed

lemma solver_ok_enforced:
  assumes "wf_crossword cw"
  shows "solver_ok ((creator_init cw)\<lparr>domains := map right_length (domains (creator_init cw))\<rparr>)"
proof -
  have "candidates_ok cw v (filter (\<lambda>w. length w = v_length v) (words cw))" for v
    using assms by (auto simp: candidates_ok_def wf_crossword_def)
  then show ?thesis
    using assms by (auto simp: solver_ok_def creator_init_def comp_def)
qed

subsection \<open>Unsatisfiable puzzles\<close>

text \<open>
  C2. For a well-formed puzzle whose word list admits no consistent complete assignment,
  \<^verbatim>\<open>solve()\<close> on the freshly constructed solver returns \<^verbatim>\<open>None\<close>: it raises no
  exception and returns no assignment.
\<close>

theorem solve_unsatisfiable:
  assumes wf: "wf_crossword cw"
    and unsat: "\<not> (\<exists>asg. complete_consistent cw asg \<and> set (map snd asg) \<subseteq> set (words cw))"
  shows "\<exists>self' h'. solve (creator_init cw) h = Inr (None, self', h')"
proof -
  let ?s0 = "creator_init cw"
  let ?s1 = "?s0\<lparr>domains := map right_length (domains ?s0)\<rparr>"
  have dv: "distinct (variables cw)" using wf by (simp add: wf_crossword_def)
  then have "distinct (map fst (domains ?s0))" by simp
  then have e: "enforce_node_consistency ?s0 = Inr ?s1" by (rule enforce_node_consistency_eq)
  have ok1: "solver_ok ?s1" using wf by (rule solver_ok_enforced)
  have cw1: "crossword ?s1 = cw" by simp
  obtain res_ac s2 where a: "ac3 ?s1 None = Inr (res_ac, s2)"
    using ac3_returns [OF ok1] by blast
  have inv1: "\<forall>(v, ws) \<in> set (domains ?s1). candidates_ok cw v ws"
    using ok1 unfolding solver_ok_def cw1 by blast
  have k2: "crossword s2 = crossword ?s1 \<and> map fst (domains s2) = map fst (domains ?s1)
      \<and> (\<forall>(v, ws) \<in> set (domains s2). candidates_ok cw v ws)"
    using candidates_ok_remove1 a inv1 by (rule ac3_preserves)
  have ok2: "solver_ok s2"
    using ok1 k2 unfolding solver_ok_def by simp
  obtain res s3 h3 where b: "backtrack s2 (h @ [[]]) (length h) = Inr (res, s3, h3)"
    using backtrack_returns(1) [OF ok2, of "length h" "h @ [[]]"]
    by (auto simp: drawn_from_empty)
  have run: "solve ?s0 h = Inr (res, s3, h3)"
    unfolding solve_Inr using e a b by blast
  have "res = None"
  proof (rule ccontr)
    assume "res \<noteq> None"
    then obtain r where r: "res = Some r" by blast
    have cc: "complete_consistent cw (h3 ! r)"
      using dv run unfolding r by (rule solve_complete_consistent)
    have s3: "s3 = s2" using backtrack_frame(1) [OF b] by simp
    have "drawn_from s2 (h3 ! r)"
      using backtrack_sound(1) [OF b [unfolded r]] by (simp add: drawn_from_empty consistent_empty)
    then have "\<forall>(v, w) \<in> set (h3 ! r). \<exists>ws. map_of (domains s2) v = Some ws \<and> w \<in> set ws"
      by (simp add: drawn_from_def)
    moreover have "candidates_ok cw v ws" if "map_of (domains s2) v = Some ws" for v ws
      using k2 map_of_SomeD [OF that] by blast
    ultimately have "set (map snd (h3 ! r)) \<subseteq> set (words cw)"
      by (fastforce simp: candidates_ok_def)
    then show False using cc unsat by blast
  qed
  then show ?thesis using run by blast
qed

lemma cross_unsatisfiable:
  "\<not> (\<exists>asg. complete_consistent (cross [''CAT'', ''DOG'']) asg
          \<and> set (map snd asg) \<subseteq> set (words (cross [''CAT'', ''DOG''])))"
proof
  assume "\<exists>asg. complete_consistent (cross [''CAT'', ''DOG'']) asg
          \<and> set (map snd asg) \<subseteq> set (words (cross [''CAT'', ''DOG'']))"
  then obtain asg where cc: "complete_consistent (cross [''CAT'', ''DOG'']) asg"
    and ws: "set (map snd asg) \<subseteq> {''CAT'', ''DOG''}"
    by (auto simp: cross_def)
  have "set (map fst asg) = {ac, dn}" using cc by (simp add: complete_consistent_def cross_def)
  then obtain w1 w2 where in1: "(ac, w1) \<in> set asg" and in2: "(dn, w2) \<in> set asg"
    by fastforce
  have w: "w1 \<in> {''CAT'', ''DOG''}" "w2 \<in> {''CAT'', ''DOG''}"
    using ws in1 in2 by force+
  have "\<forall>(v, w) \<in> set asg. \<forall>(n, w') \<in> set asg.
          n \<in> set (neighbors (cross [''CAT'', ''DOG'']) v) \<longrightarrow>
         (\<exists>x y. overlaps (cross [''CAT'', ''DOG'']) (v, n) = Some (Some (x, y))
             \<and> x < length w \<and> y < length w' \<and> w ! x = w' ! y)"
    using cc by (simp add: complete_consistent_def)
  then have "\<exists>x y. overlaps (cross [''CAT'', ''DOG'']) (ac, dn) = Some (Some (x, y))
             \<and> x < length w1 \<and> y < length w2 \<and> w1 ! x = w2 ! y"
    using in1 in2 by (fastforce simp: cross_def)
  then have "w1 ! 1 = w2 ! 0" by (simp add: cross_def ac_def dn_def)
  then show False using w by auto
qed

lemma wf_cross: "wf_crossword (cross ws) \<longleftrightarrow> distinct ws"
  by (auto simp: wf_crossword_def cross_def ac_def dn_def)

theorem solve_unsatisfiable_witness:
  "wf_crossword (cross [''CAT'', ''DOG''])
   \<and> \<not> (\<exists>asg. complete_consistent (cross [''CAT'', ''DOG'']) asg
          \<and> set (map snd asg) \<subseteq> set (words (cross [''CAT'', ''DOG''])))
   \<and> (\<exists>self' h'. solve (creator_init (cross [''CAT'', ''DOG''])) [] = Inr (None, self', h'))"
proof -
  have h1: "wf_crossword (cross [''CAT'', ''DOG''])" by (simp add: wf_cross)
  show ?thesis
    using h1 cross_unsatisfiable solve_unsatisfiable [OF h1 cross_unsatisfiable] by blast
qed

end
